theory Spec2Isabelle
  imports Main
begin

section \<open>Items and the text stored for them\<close>

text \<open>
  A cart entry is the object \<^verbatim>\<open>{id: ..., qty: ...}\<close> of \<^verbatim>\<open>ng-cart.js\<close>. Both fields are
  JavaScript numbers in the source (\<^verbatim>\<open>@param {Number} id\<close>); they are modelled as
  mathematical integers, which is exact as long as every value stays below \<open>2^53\<close>.
\<close>

record item =
  item_id :: int
  qty :: int

text \<open>
  The value a handler or a callback receives: \<open>None\<close> is JavaScript's \<^verbatim>\<open>undefined\<close>
  (the payload of \<^verbatim>\<open>fireCustomEvent('persisted')\<close>), \<open>Some xs\<close> is an array of items.
\<close>

type_synonym payload = "item list option"

subsection \<open>\<^verbatim>\<open>JSON.stringify\<close> on item lists\<close>

definition digit_char :: "nat \<Rightarrow> char" where
  "digit_char n = ''0123456789'' ! (n mod 10)"

function show_nat :: "nat \<Rightarrow> string" where
  "show_nat n = (if n < 10 then [digit_char n] else show_nat (n div 10) @ [digit_char (n mod 10)])"
  by pat_completeness auto
termination
  by (relation "measure (\<lambda>n. n)") auto

declare show_nat.simps [simp del]

definition show_int :: "int \<Rightarrow> string" where
  "show_int i = (if i < 0 then CHR ''-'' # show_nat (nat (- i)) else show_nat (nat i))"

definition item_text :: "item \<Rightarrow> string" where
  \<open>item_text it = ''{"id":'' @ show_int (item_id it) @ '',"qty":'' @ show_int (qty it) @ ''}''\<close>

fun join_commas :: "string list \<Rightarrow> string" where
  "join_commas [] = []"
| "join_commas [x] = x"
| "join_commas (x # y # ys) = x @ CHR '','' # join_commas (y # ys)"

definition items_text :: "item list \<Rightarrow> string" where
  "items_text xs = CHR ''['' # join_commas (map item_text xs) @ '']''"

text \<open>
  \<^verbatim>\<open>angular.toJson(obj)\<close> is \<^verbatim>\<open>JSON.stringify\<close> behind a guard: it returns \<^verbatim>\<open>undefined\<close>
  for an undefined argument.
\<close>

definition toJson :: "payload \<Rightarrow> string option" where
  "toJson d = map_option items_text d"

subsection \<open>\<^verbatim>\<open>JSON.parse\<close>\<close>

text \<open>
  The parser follows the JSON grammar (RFC 8259). A number with a fraction or an exponent is
  kept as its text (\<open>JFloat\<close>), and a string as the text between its quotes with the escapes
  checked but not decoded: neither occurs in the text of an item list.
\<close>

datatype json =
    JNull
  | JBool bool
  | JNum int
  | JFloat string
  | JStr string
  | JArr "json list"
  | JObj "(string \<times> json) list"

datatype 'a parsed = Parsed 'a string | Bad | OutOfFuel

definition is_ws :: "char \<Rightarrow> bool" where
  "is_ws c = (c = CHR '' '' \<or> c = CHR 0x09 \<or> c = CHR 0x0A \<or> c = CHR 0x0D)"

definition skip_ws :: "string \<Rightarrow> string" where
  "skip_ws s = dropWhile is_ws s"

definition is_digit :: "char \<Rightarrow> bool" where
  "is_digit c = (c \<in> set ''0123456789'')"

definition is_hex :: "char \<Rightarrow> bool" where
  "is_hex c = (c \<in> set ''0123456789abcdefABCDEF'')"

definition digit_val :: "char \<Rightarrow> nat" where
  "digit_val c = of_char c - 48"

definition nat_of_digits :: "string \<Rightarrow> nat" where
  "nat_of_digits ds = foldl (\<lambda>a c. 10 * a + digit_val c) 0 ds"

text \<open>The optional fraction and exponent of a number: the text consumed and the rest.\<close>

definition parse_frac :: "string \<Rightarrow> (string \<times> string) option" where
  "parse_frac s =
     (case s of
        c # r \<Rightarrow>
          if c = CHR ''.''
          then (if takeWhile is_digit r = [] then None
                else Some (c # takeWhile is_digit r, dropWhile is_digit r))
          else Some ([], s)
      | [] \<Rightarrow> Some ([], s))"

definition parse_exp :: "string \<Rightarrow> (string \<times> string) option" where
  "parse_exp s =
     (case s of
        c # r \<Rightarrow>
          if c = CHR ''e'' \<or> c = CHR ''E''
          then (let sg = (case r of x # _ \<Rightarrow> if x = CHR ''+'' \<or> x = CHR ''-'' then [x] else [] | [] \<Rightarrow> []);
                    r' = drop (length sg) r
                in if takeWhile is_digit r' = [] then None
                   else Some (c # sg @ takeWhile is_digit r', dropWhile is_digit r'))
          else Some ([], s)
      | [] \<Rightarrow> Some ([], s))"

definition parse_number :: "string \<Rightarrow> json parsed" where
  "parse_number s =
     (let sg = (case s of x # _ \<Rightarrow> if x = CHR ''-'' then [x] else [] | [] \<Rightarrow> []);
          s1 = drop (length sg) s;
          ds = takeWhile is_digit s1
      in if ds = [] \<or> (hd ds = CHR ''0'' \<and> length ds > 1) then Bad
         else (case parse_frac (dropWhile is_digit s1) of
                 None \<Rightarrow> Bad
               | Some (fr, r1) \<Rightarrow>
                   (case parse_exp r1 of
                      None \<Rightarrow> Bad
                    | Some (ex, r2) \<Rightarrow>
                        if fr = [] \<and> ex = []
                        then Parsed (JNum (if sg = [] then int (nat_of_digits ds)
                                           else - int (nat_of_digits ds))) r2
                        else Parsed (JFloat (sg @ ds @ fr @ ex)) r2)))"

text \<open>The characters after an opening quote, up to the closing one.\<close>

fun parse_string :: "string \<Rightarrow> (string \<times> string) option" where
  "parse_string [] = None"
| "parse_string (c # r) =
     (if c = CHR 0x22 then Some ([], r)
      else if c = CHR 0x5C then
        (case r of
           [] \<Rightarrow> None
         | e # r' \<Rightarrow>
             if e \<in> set [CHR 0x22, CHR 0x5C, CHR ''/'', CHR ''b'', CHR ''f'', CHR ''n'', CHR ''r'', CHR ''t'']
             then map_option (\<lambda>(t, rest). (c # e # t, rest)) (parse_string r')
             else if e = CHR ''u'' \<and> 4 \<le> length r' \<and> list_all is_hex (take 4 r')
             then map_option (\<lambda>(t, rest). (c # e # take 4 r' @ t, rest)) (parse_string (drop 4 r'))
             else None)
      else if (of_char c :: nat) < 32 then None
      else map_option (\<lambda>(t, rest). (c # t, rest)) (parse_string r))"

definition starts_with :: "string \<Rightarrow> string \<Rightarrow> bool" where
  "starts_with p s = (take (length p) s = p)"

fun parse_value :: "nat \<Rightarrow> string \<Rightarrow> json parsed"
  and parse_elements :: "nat \<Rightarrow> string \<Rightarrow> json list \<Rightarrow> json parsed"
  and parse_members :: "nat \<Rightarrow> string \<Rightarrow> (string \<times> json) list \<Rightarrow> json parsed"
where
  "parse_value 0 s = OutOfFuel"
| "parse_value (Suc n) s =
     (case skip_ws s of
        [] \<Rightarrow> Bad
      | c # r \<Rightarrow>
          if c = CHR ''['' then
            (if starts_with '']'' (skip_ws r) then Parsed (JArr []) (drop 1 (skip_ws r))
             else parse_elements n r [])
          else if c = CHR ''{'' then
            (if starts_with ''}'' (skip_ws r) then Parsed (JObj []) (drop 1 (skip_ws r))
             else parse_members n r [])
          else if c = CHR 0x22 then
            (case parse_string r of None \<Rightarrow> Bad | Some (t, r') \<Rightarrow> Parsed (JStr t) r')
          else if c = CHR ''-'' \<or> is_digit c then parse_number (c # r)
          else if starts_with ''null'' (c # r) then Parsed JNull (drop 4 (c # r))
          else if starts_with ''true'' (c # r) then Parsed (JBool True) (drop 4 (c # r))
          else if starts_with ''false'' (c # r) then Parsed (JBool False) (drop 5 (c # r))
          else Bad)"
| "parse_elements 0 s acc = OutOfFuel"
| "parse_elements (Suc n) s acc =
     (case parse_value n s of
        Parsed v r \<Rightarrow>
          (case skip_ws r of
             [] \<Rightarrow> Bad
           | c # r' \<Rightarrow>
               if c = CHR '','' then parse_elements n r' (acc @ [v])
               else if c = CHR '']'' then Parsed (JArr (acc @ [v])) r'
               else Bad)
      | Bad \<Rightarrow> Bad
      | OutOfFuel \<Rightarrow> OutOfFuel)"
| "parse_members 0 s acc = OutOfFuel"
| "parse_members (Suc n) s acc =
     (case skip_ws s of
        [] \<Rightarrow> Bad
      | q # r \<Rightarrow>
          if q \<noteq> CHR 0x22 then Bad
          else (case parse_string r of
                  None \<Rightarrow> Bad
                | Some (k, r1) \<Rightarrow>
                    (case skip_ws r1 of
                       [] \<Rightarrow> Bad
                     | c # r2 \<Rightarrow>
                         if c \<noteq> CHR '':'' then Bad
                         else (case parse_value n r2 of
                                 Parsed v r3 \<Rightarrow>
                                   (case skip_ws r3 of
                                      [] \<Rightarrow> Bad
                                    | c' # r4 \<Rightarrow>
                                        if c' = CHR '','' then parse_members n r4 (acc @ [(k, v)])
                                        else if c' = CHR ''}'' then Parsed (JObj (acc @ [(k, v)])) r4
                                        else Bad)
                               | Bad \<Rightarrow> Bad
                               | OutOfFuel \<Rightarrow> OutOfFuel))))"

text \<open>
  \<^verbatim>\<open>JSON.parse(text)\<close>: one value, then nothing but white space; \<open>None\<close> is the
  \<^verbatim>\<open>SyntaxError\<close> it throws. The parser spends at most two units of fuel for a character
  it consumes, so twice the length of the text is fuel enough (\<open>JSON_parse_fuel\<close> below).
\<close>

definition JSON_parse :: "string \<Rightarrow> json option" where
  "JSON_parse s =
     (case parse_value (2 * length s + 2) s of
        Parsed v r \<Rightarrow> if skip_ws r = [] then Some v else None
      | Bad \<Rightarrow> None
      | OutOfFuel \<Rightarrow> None)"

text \<open>
  Reading a parsed value as an item: an object with exactly the keys \<^verbatim>\<open>id\<close> and
  \<^verbatim>\<open>qty\<close>, both integers (a repeated key keeps its last value, as in JavaScript).
\<close>

definition json_of_item :: "item \<Rightarrow> json" where
  "json_of_item it = JObj [(''id'', JNum (item_id it)), (''qty'', JNum (qty it))]"

definition json_of_items :: "item list \<Rightarrow> json" where
  "json_of_items xs = JArr (map json_of_item xs)"

fun as_item :: "json \<Rightarrow> item option" where
  "as_item (JObj kvs) =
     (if set (map fst kvs) = {''id'', ''qty''}
      then (case (map_of (rev kvs) ''id'', map_of (rev kvs) ''qty'') of
              (Some (JNum i), Some (JNum q)) \<Rightarrow> Some \<lparr>item_id = i, qty = q\<rparr>
            | _ \<Rightarrow> None)
      else None)"
| "as_item _ = None"

fun as_items :: "json \<Rightarrow> item list option" where
  "as_items (JArr vs) =
     (if list_all (\<lambda>v. as_item v \<noteq> None) vs then Some (map (\<lambda>v. the (as_item v)) vs) else None)"
| "as_items _ = None"

section \<open>The state of the \<^verbatim>\<open>Cart\<close> service\<close>

text \<open>
  A binding of \<^verbatim>\<open>eventStack\<close> is \<^verbatim>\<open>{type: ..., fn: ...}\<close>. The handler that \<^verbatim>\<open>init\<close>
  binds is a closure private to the service, so it only ever stands under the type
  \<^verbatim>\<open>'sys-modified'\<close>: \<open>SysModified\<close> is that binding. Every other binding comes from a
  caller of \<^verbatim>\<open>onEvent\<close>; its function is opaque and is named by a number. Such a handler is
  an observer: running it is recorded in the trace and changes nothing else. The property
  \<^verbatim>\<open>ran\<close> that \<^verbatim>\<open>fireCustomEvent\<close> writes on a binding is never read and is left out.
\<close>

datatype binding = SysModified | Bound string nat

fun btype :: "binding \<Rightarrow> string" where
  "btype SysModified = ''sys-modified''"
| "btype (Bound t k) = t"

text \<open>
  What the service does to the world outside it, in order: a call of \<^verbatim>\<open>fireCustomEvent\<close>
  (recorded when it starts), a run of a caller's handler or callback with its argument, a
  run of the callback of \<^verbatim>\<open>getCart\<close>, and \<^verbatim>\<open>$rootScope.$broadcast('cart-modified', items)\<close>.
\<close>

datatype effect =
    Fired string payload
  | Ran nat payload
  | GotCart nat json
  | Broadcast payload

record cart_state =
  eventStack :: "binding list"
  allItems :: payload
  localStorage :: "string \<rightharpoonup> string"
  trace :: "effect list"

datatype error =
    Error string
  | SyntaxError
  | TypeError
  | Rejection string
  | Unmodelled

text \<open>
  A call either returns a value or throws; both leave a state behind, since JavaScript
  undoes nothing when an exception passes.
\<close>

datatype 'a result = Return 'a cart_state | Throw error cart_state

definition errors_itemsNotArray :: string where
  "errors_itemsNotArray = ''Argument should be of type Array''"

definition errors_idMandatory :: string where
  "errors_idMandatory = ''Item id missing''"

subsection \<open>The \<^verbatim>\<open>Reviewer\<close> service\<close>

text \<open>
  \<^verbatim>\<open>Reviewer.review(cart)\<close> returns a thenable that calls its \<^verbatim>\<open>success\<close> or its
  \<^verbatim>\<open>failure\<close> argument at once, as the one in the source does. The service is injected, so
  the model takes it as a parameter; \<open>Reviewer_review\<close> is the one of \<^verbatim>\<open>ng-cart.js\<close>.
\<close>

datatype decision = Accept | Reject string

type_synonym reviewer = "cart_state \<Rightarrow> decision"

definition Reviewer_review :: reviewer where
  "Reviewer_review s = Accept"

subsection \<open>\<^verbatim>\<open>storage\<close>: the wrapper of \<^verbatim>\<open>localStorage\<close>\<close>

definition storage_key :: string where
  "storage_key = ''cart''"

text \<open>\<^verbatim>\<open>localStorage.setItem\<close> stores the string of its argument: \<^verbatim>\<open>"undefined"\<close> for none.\<close>

definition setItem :: "string \<Rightarrow> string option \<Rightarrow> (string \<rightharpoonup> string) \<Rightarrow> (string \<rightharpoonup> string)" where
  "setItem k v m = m(k \<mapsto> (case v of None \<Rightarrow> ''undefined'' | Some t \<Rightarrow> t))"

definition storage_save :: "payload \<Rightarrow> cart_state \<Rightarrow> cart_state" where
  "storage_save obj s = s\<lparr>localStorage := setItem storage_key (toJson obj) (localStorage s)\<rparr>"

definition storage_fetch :: "cart_state \<Rightarrow> json result" where
  "storage_fetch s =
     (case localStorage s storage_key of
        None \<Rightarrow> Return (JArr []) s
      | Some fromLocalStorage \<Rightarrow>
          if length fromLocalStorage \<noteq> 0
          then (case JSON_parse fromLocalStorage of
                  None \<Rightarrow> Throw SyntaxError s
                | Some v \<Rightarrow> Return v s)
          else Return (JArr []) s)"

definition storage_clear :: "cart_state \<Rightarrow> cart_state" where
  "storage_clear s = storage_save (Some []) s"

section \<open>The event bus\<close>

text \<open>\<^verbatim>\<open>type.split(' ')\<close>: a new piece starts at every single space.\<close>

fun split_on :: "char \<Rightarrow> string \<Rightarrow> string list" where
  "split_on c [] = [[]]"
| "split_on c (x # xs) =
     (if x = c then [] # split_on c xs
      else (case split_on c xs of w # ws \<Rightarrow> (x # w) # ws | [] \<Rightarrow> [[x]]))"

definition onEvent :: "string \<Rightarrow> nat \<Rightarrow> cart_state \<Rightarrow> cart_state" where
  "onEvent ty fn s = s\<lparr>eventStack := eventStack s @ [Bound ty fn]\<rparr>"

text \<open>\<^verbatim>\<open>Array.prototype.splice(start, deleteCount, ...items)\<close> for a start that is not negative.\<close>

definition splice_array :: "'a list \<Rightarrow> nat \<Rightarrow> nat \<Rightarrow> 'a list \<Rightarrow> 'a list" where
  "splice_array xs start deleteCount ins = take start xs @ ins @ drop (start + deleteCount) xs"

text \<open>
  \<^verbatim>\<open>for (var i in eventStack)\<close> fixes the keys \<open>0, ..., n - 1\<close> when the loop starts and
  visits each of them in order, skipping a key that is no longer a property of the array
  when its turn comes (ECMAScript, EnumerateObjectProperties). The loop of \<^verbatim>\<open>unbindEvent\<close>
  splices the live array, so the keys are checked against its current length.
\<close>

fun unbind_loop :: "string \<Rightarrow> nat list \<Rightarrow> binding list \<Rightarrow> binding list" where
  "unbind_loop ty [] es = es"
| "unbind_loop ty (i # keys) es =
     (if i < length es \<and> btype (es ! i) = ty
      then unbind_loop ty keys (splice_array es i 1 [])
      else unbind_loop ty keys es)"

definition unbindEvent :: "string \<Rightarrow> cart_state \<Rightarrow> cart_state" where
  "unbindEvent ty s =
     s\<lparr>eventStack := unbind_loop ty [0..<length (eventStack s)] (eventStack s)\<rparr>"

definition refresh :: "payload \<Rightarrow> cart_state \<Rightarrow> cart_state" where
  "refresh items s = s\<lparr>trace := trace s @ [Broadcast items]\<rparr>"

text \<open>
  \<^verbatim>\<open>fireCustomEvent\<close> runs the handler of \<^verbatim>\<open>init\<close>, which calls \<^verbatim>\<open>cart.save\<close>, which
  calls \<^verbatim>\<open>storage.persist\<close>, which calls \<^verbatim>\<open>fireCustomEvent('persisted')\<close>: the five are
  defined together. \<open>fire_loop\<close> is the \<^verbatim>\<open>for ... in\<close> loop of \<^verbatim>\<open>fireCustomEvent\<close> over the
  keys that are left, and \<open>sys_modified_handler\<close> is the function bound by \<^verbatim>\<open>init\<close>.
  The rejection handler of \<^verbatim>\<open>cart.save\<close> throws what it is given.
\<close>

function fire_loop :: "reviewer \<Rightarrow> string list \<Rightarrow> payload \<Rightarrow> nat list \<Rightarrow> cart_state \<Rightarrow> unit result"
  and sys_modified_handler :: "reviewer \<Rightarrow> payload \<Rightarrow> cart_state \<Rightarrow> unit result"
  and save :: "reviewer \<Rightarrow> cart_state \<Rightarrow> decision result"
  and storage_persist :: "reviewer \<Rightarrow> cart_state \<Rightarrow> unit result"
  and fireCustomEvent :: "reviewer \<Rightarrow> string \<Rightarrow> payload \<Rightarrow> cart_state \<Rightarrow> unit result"
where
  "fire_loop rv eventTypes d [] s = Return () s"
| "fire_loop rv eventTypes d (i # keys) s =
     (if i < length (eventStack s) \<and> btype (eventStack s ! i) \<in> set eventTypes
      then (case eventStack s ! i of
              SysModified \<Rightarrow>
                (case sys_modified_handler rv d s of
                   Throw e s' \<Rightarrow> Throw e s'
                 | Return _ s' \<Rightarrow> fire_loop rv eventTypes d keys s')
            | Bound t fn \<Rightarrow> fire_loop rv eventTypes d keys (s\<lparr>trace := trace s @ [Ran fn d]\<rparr>))
      else fire_loop rv eventTypes d keys s)"
| "sys_modified_handler rv items s =
     (case save rv (refresh items (s\<lparr>allItems := items\<rparr>)) of
        Throw e s' \<Rightarrow> Throw e s'
      | Return _ s' \<Rightarrow> Return () s')"
| "save rv s =
     (case rv s of
        Accept \<Rightarrow>
          (case storage_persist rv s of
             Throw e s' \<Rightarrow> Throw e s'
           | Return _ s' \<Rightarrow> Return Accept s')
      | Reject err \<Rightarrow> Throw (Rejection err) s)"
| "storage_persist rv s = fireCustomEvent rv ''persisted'' None (storage_save (allItems s) s)"
| "fireCustomEvent rv ty d s =
     fire_loop rv (split_on CHR '' '' ty) d [0..<length (eventStack s)]
       (s\<lparr>trace := trace s @ [Fired ty d]\<rparr>)"
  by pat_completeness auto
termination
  apply (relation "inv_image (less_than <*lex*> less_than)
     (\<lambda>x. case x of
        Inl (Inl (rv, tys, d, ks, s)) \<Rightarrow> (if ''sys-modified'' \<in> set tys then 5 else 0, length ks)
      | Inl (Inr (rv, d, s)) \<Rightarrow> (4, 0)
      | Inr (Inl (rv, s)) \<Rightarrow> (3, 0)
      | Inr (Inr (Inl (rv, s))) \<Rightarrow> (2, 0)
      | Inr (Inr (Inr (rv, ty, d, s))) \<Rightarrow>
          (if ''sys-modified'' \<in> set (split_on CHR '' '' ty) then 6 else 1, 0))")
   apply (rule wf_inv_image, rule wf_lex_prod, rule wf_less_than, rule wf_less_than)
  apply simp_all
  done

declare fire_loop.simps [simp del] sys_modified_handler.simps [simp del] save.simps [simp del]
  storage_persist.simps [simp del] fireCustomEvent.simps [simp del]

text \<open>
  \<^verbatim>\<open>init\<close>: bind the handler under \<^verbatim>\<open>'sys-modified'\<close>, then fire \<^verbatim>\<open>'initialized'\<close>. The
  service starts with an empty \<^verbatim>\<open>eventStack\<close>, \<^verbatim>\<open>allItems = []\<close> and whatever the browser
  has in \<^verbatim>\<open>localStorage\<close>.
\<close>

definition init :: "reviewer \<Rightarrow> (string \<rightharpoonup> string) \<Rightarrow> unit result" where
  "init rv ls =
     fireCustomEvent rv ''initialized'' None
       \<lparr>eventStack = [] @ [SysModified], allItems = Some [], localStorage = ls, trace = []\<rparr>"

section \<open>The cart\<close>

definition bind_result :: "'a result \<Rightarrow> ('a \<Rightarrow> cart_state \<Rightarrow> 'b result) \<Rightarrow> 'b result" where
  "bind_result m f = (case m of Throw e s \<Rightarrow> Throw e s | Return x s \<Rightarrow> f x s)"

text \<open>
  \<^verbatim>\<open>getCart(cb)\<close> reads the store, runs the callback on what it read and returns it (the
  \<^verbatim>\<open>then\<close> of the returned object hands the same value to its argument).
\<close>

definition getCart :: "nat option \<Rightarrow> cart_state \<Rightarrow> json result" where
  "getCart cb s =
     bind_result (storage_fetch s) (\<lambda>items s'.
       Return items (case cb of None \<Rightarrow> s' | Some k \<Rightarrow> s'\<lparr>trace := trace s' @ [GotCart k items]\<rparr>))"

text \<open>
  The operations below are modelled for a stored record that is a list of items. On any
  other JSON value they stop with the marker \<open>Unmodelled\<close> (JavaScript goes on with a
  value of another shape and mostly raises a \<^verbatim>\<open>TypeError\<close>).
\<close>

definition cart_items :: "json \<Rightarrow> cart_state \<Rightarrow> item list result" where
  "cart_items v s = (case as_items v of Some xs \<Rightarrow> Return xs s | None \<Rightarrow> Throw Unmodelled s)"

record found =
  item :: "item option"
  index :: int

text \<open>The callback of \<^verbatim>\<open>filter\<close> in \<^verbatim>\<open>getById\<close> overwrites \<^verbatim>\<open>idx\<close> at every match.\<close>

fun last_match :: "int \<Rightarrow> item list \<Rightarrow> nat \<Rightarrow> int \<Rightarrow> int" where
  "last_match ident [] i idx = idx"
| "last_match ident (it # rest) i idx =
     last_match ident rest (Suc i) (if item_id it = ident then int i else idx)"

definition find_by_id :: "int \<Rightarrow> item list \<Rightarrow> found" where
  "find_by_id ident cartItems =
     (let filteredItems = filter (\<lambda>it. item_id it = ident) cartItems
      in \<lparr>item = (if filteredItems = [] then None else Some (last filteredItems)),
          index = last_match ident cartItems 0 (- 1)\<rparr>)"

definition getById :: "int \<Rightarrow> item list option \<Rightarrow> cart_state \<Rightarrow> found result" where
  "getById ident itemsToUse s =
     (case itemsToUse of
        Some cartItems \<Rightarrow> Return (find_by_id ident cartItems) s
      | None \<Rightarrow>
          bind_result (getCart None s) (\<lambda>v s1.
          bind_result (cart_items v s1) (\<lambda>cartItems s2.
            Return (find_by_id ident cartItems) s2)))"

text \<open>
  The argument of \<^verbatim>\<open>addItems\<close>: an array of items, or something that is not an array. The
  entries of the array are taken to be different objects (the loop pushes the caller's own
  objects into the cart and later adds to their \<^verbatim>\<open>qty\<close> in place).
\<close>

datatype arg = NotArray | Array "item list"

text \<open>
  The body of the loop of \<^verbatim>\<open>addItems\<close>: add to the quantity of the entry found, or push the
  new entry. \<open>None\<close> is the \<^verbatim>\<open>TypeError\<close> of reading \<^verbatim>\<open>qty\<close> where the array has no element
  (\<^verbatim>\<open>getById\<close> never returns such an index).
\<close>

definition put_entry :: "found \<Rightarrow> item \<Rightarrow> item list \<Rightarrow> item list option" where
  "put_entry existing it cartItems =
     (if index existing \<noteq> - 1
      then (if 0 \<le> index existing \<and> nat (index existing) < length cartItems
            then Some (cartItems[nat (index existing) :=
                   (cartItems ! nat (index existing))
                     \<lparr>qty := qty (cartItems ! nat (index existing)) + qty it\<rparr>])
            else None)
      else Some (cartItems @ [it]))"

fun addItems_loop :: "reviewer \<Rightarrow> item list \<Rightarrow> item list \<Rightarrow> cart_state \<Rightarrow> item list result" where
  "addItems_loop rv [] cartItems s = Return cartItems s"
| "addItems_loop rv (it # rest) cartItems s =
     (case getById (item_id it) (Some cartItems) s of
        Throw e s1 \<Rightarrow> Throw e s1
      | Return existing s1 \<Rightarrow>
          (case put_entry existing it cartItems of
             None \<Rightarrow> Throw TypeError s1
           | Some cartItems' \<Rightarrow>
               (case fireCustomEvent rv ''modified added sys-modified'' (Some cartItems') s1 of
                  Throw e s2 \<Rightarrow> Throw e s2
                | Return _ s2 \<Rightarrow> addItems_loop rv rest cartItems' s2)))"

definition addItems :: "reviewer \<Rightarrow> arg \<Rightarrow> cart_state \<Rightarrow> item list result" where
  "addItems rv items s =
     (case items of
        NotArray \<Rightarrow> Throw (Error errors_itemsNotArray) s
      | Array entries \<Rightarrow>
          bind_result (getCart None s) (\<lambda>v s1.
          bind_result (cart_items v s1) (\<lambda>cartItems s2.
            addItems_loop rv entries cartItems s2)))"

text \<open>
  \<^verbatim>\<open>addItem(id, qty)\<close>: an argument left out is \<open>None\<close>. \<^verbatim>\<open>qty || 1\<close> is \<open>1\<close> for every
  falsy \<^verbatim>\<open>qty\<close>, which for a number is \<open>0\<close>.
\<close>

definition addItem :: "reviewer \<Rightarrow> int option \<Rightarrow> int option \<Rightarrow> cart_state \<Rightarrow> item list result" where
  "addItem rv ident q s =
     (let qty' = (case q of None \<Rightarrow> 1 | Some n \<Rightarrow> if n = 0 then 1 else n)
      in case ident of
           None \<Rightarrow> Throw (Error errors_idMandatory) s
         | Some i \<Rightarrow> addItems rv (Array [\<lparr>item_id = i, qty = qty'\<rparr>]) s)"

definition remove :: "reviewer \<Rightarrow> int \<Rightarrow> cart_state \<Rightarrow> bool result" where
  "remove rv ident s =
     bind_result (getById ident None s) (\<lambda>result s1.
     bind_result (getCart None s1) (\<lambda>v s2.
     bind_result (cart_items v s2) (\<lambda>cartItems s3.
       if index result \<noteq> - 1
       then bind_result
              (fireCustomEvent rv ''modified removed sys-modified''
                 (Some (splice_array cartItems (nat (index result)) 1 [])) s3)
              (\<lambda>_ s4. Return True s4)
       else Return False s3)))"

definition clear :: "reviewer \<Rightarrow> cart_state \<Rightarrow> unit result" where
  "clear rv s = fireCustomEvent rv ''modified removed cleared sys-modified'' (Some []) s"

text \<open>
  \<^verbatim>\<open>changeQuantity(id, qty, cb)\<close>. Setting \<^verbatim>\<open>qty\<close> on an undefined \<^verbatim>\<open>result.item\<close> would be a
  \<^verbatim>\<open>TypeError\<close>; \<^verbatim>\<open>getById\<close> never returns one with an index other than \<open>-1\<close>.
\<close>

definition changeQuantity :: "reviewer \<Rightarrow> int \<Rightarrow> int \<Rightarrow> nat option \<Rightarrow> cart_state \<Rightarrow> bool result" where
  "changeQuantity rv ident q cb s =
     bind_result (getCart None s) (\<lambda>v s1.
     bind_result (cart_items v s1) (\<lambda>cartItems s2.
     bind_result (getById ident None s2) (\<lambda>result s3.
       if index result \<noteq> - 1
       then (case item result of
               None \<Rightarrow> Throw TypeError s3
             | Some it \<Rightarrow>
                 (let updatedItem = it\<lparr>qty := q\<rparr>;
                      cartItems' = splice_array cartItems (nat (index result)) 1 [updatedItem]
                  in bind_result
                       (fireCustomEvent rv ''modified updated sys-modified'' (Some cartItems') s3)
                       (\<lambda>_ s4. Return True
                          (case cb of
                             None \<Rightarrow> s4
                           | Some k \<Rightarrow> s4\<lparr>trace := trace s4 @ [Ran k (Some cartItems')]\<rparr>))))
       else Return False s3)))"

section \<open>What a fire leaves behind\<close>

text \<open>
  The callers' handlers that a fire of the types \<open>tys\<close> runs, in the order of the bindings.
\<close>

fun runs :: "string list \<Rightarrow> payload \<Rightarrow> binding list \<Rightarrow> effect list" where
  "runs tys d [] = []"
| "runs tys d (SysModified # es) = runs tys d es"
| "runs tys d (Bound t k # es) = (if t \<in> set tys then Ran k d # runs tys d es else runs tys d es)"

text \<open>
  The effects of the loop of a fire over the bindings \<open>es\<close> of a stack \<open>stack\<close> when every
  review is accepted: a caller's handler runs; the handler of \<^verbatim>\<open>init\<close> broadcasts, and the
  \<^verbatim>\<open>'persisted'\<close> fire inside it runs the handlers bound to \<^verbatim>\<open>'persisted'\<close>.
\<close>

fun fire_effects :: "string list \<Rightarrow> payload \<Rightarrow> binding list \<Rightarrow> binding list \<Rightarrow> effect list" where
  "fire_effects tys d stack [] = []"
| "fire_effects tys d stack (SysModified # es) =
     (if ''sys-modified'' \<in> set tys
      then Broadcast d # Fired ''persisted'' None # runs [''persisted''] None stack
             @ fire_effects tys d stack es
      else fire_effects tys d stack es)"
| "fire_effects tys d stack (Bound t k # es) =
     (if t \<in> set tys then Ran k d # fire_effects tys d stack es else fire_effects tys d stack es)"

text \<open>
  The state that \<^verbatim>\<open>fireCustomEvent(ty, d)\<close> leaves when every review is accepted: the
  handler of \<^verbatim>\<open>init\<close>, if it is bound and \<^verbatim>\<open>'sys-modified'\<close> is among the types, has set
  \<^verbatim>\<open>storage.allItems\<close> and the stored record; the trace has grown by the fire and its effects.
\<close>

definition fired :: "string \<Rightarrow> payload \<Rightarrow> cart_state \<Rightarrow> cart_state" where
  "fired ty d s =
     (if ''sys-modified'' \<in> set (split_on CHR '' '' ty) \<and> SysModified \<in> set (eventStack s)
      then s\<lparr>allItems := d, localStorage := setItem storage_key (toJson d) (localStorage s)\<rparr>
      else s)
     \<lparr>trace := trace s @ Fired ty d
        # fire_effects (split_on CHR '' '' ty) d (eventStack s) (eventStack s)\<rparr>"

text \<open>The cart as \<^verbatim>\<open>getCart\<close> reads it from the store, when the record is a list of items.\<close>

definition stored_cart :: "cart_state \<Rightarrow> item list option" where
  "stored_cart s = (case storage_fetch s of Return v _ \<Rightarrow> as_items v | Throw _ _ \<Rightarrow> None)"

text \<open>
  One pass of the loop of \<^verbatim>\<open>addItems\<close> on the list \<open>c\<close>, and the lists that the passes
  over the entries produce one after the other.
\<close>

definition add_entry :: "item \<Rightarrow> item list \<Rightarrow> item list" where
  "add_entry it c =
     (case put_entry (find_by_id (item_id it) c) it c of Some c' \<Rightarrow> c' | None \<Rightarrow> c)"

fun snapshots :: "item list \<Rightarrow> item list \<Rightarrow> item list list" where
  "snapshots c [] = []"
| "snapshots c (it # rest) = add_entry it c # snapshots (add_entry it c) rest"

text \<open>
  What the loop of \<^verbatim>\<open>unbindEvent\<close> leaves of a stack: a binding of the type goes, and the
  binding right behind it stays, whatever its type.
\<close>

fun sweep :: "string \<Rightarrow> binding list \<Rightarrow> binding list" where
  "sweep ty [] = []"
| "sweep ty [b] = (if btype b = ty then [] else [b])"
| "sweep ty (b # b' # bs) = (if btype b = ty then b' # sweep ty bs else b # sweep ty (b' # bs))"

section \<open>The text of an item list reads back\<close>

lemma digit_char_cases:
  assumes "d < 10"
  shows "is_digit (digit_char d) \<and> digit_val (digit_char d) = d \<and> (digit_char d = CHR ''0'' \<longleftrightarrow> d = 0)"
proof -
  from assms have "d = 0 \<or> d = 1 \<or> d = 2 \<or> d = 3 \<or> d = 4 \<or> d = 5 \<or> d = 6 \<or> d = 7 \<or> d = 8 \<or> d = 9"
    by arith
  then show ?thesis
    by (elim disjE) (simp_all add: digit_char_def is_digit_def digit_val_def)
qed

lemma is_digit_digit_char: "is_digit (digit_char (n mod 10))"
  using digit_char_cases [of "n mod 10"] by simp

lemma digit_char_mod: "digit_char (n mod 10) = digit_char n"
  by (simp add: digit_char_def)

lemma show_nat_digits: "list_all is_digit (show_nat n)"
proof (induction n rule: show_nat.induct)
  case (1 n)
  show ?case
  proof (cases "n < 10")
    case True
    then show ?thesis using digit_char_cases [of n] by (simp add: show_nat.simps [of n])
  next
    case False
    with 1 show ?thesis using is_digit_digit_char [of n] by (simp add: show_nat.simps [of n])
  qed
qed

lemma show_nat_not_Nil: "show_nat n \<noteq> []"
  by (simp add: show_nat.simps [of n])

lemma nat_of_digits_snoc: "nat_of_digits (ds @ [c]) = 10 * nat_of_digits ds + digit_val c"
  by (simp add: nat_of_digits_def)

lemma nat_of_digits_show_nat: "nat_of_digits (show_nat n) = n"
proof (induction n rule: show_nat.induct)
  case (1 n)
  show ?case
  proof (cases "n < 10")
    case True
    then show ?thesis using digit_char_cases [of n]
      by (simp add: show_nat.simps [of n] nat_of_digits_def)
  next
    case False
    with 1 show ?thesis using digit_char_cases [of "n mod 10"]
      by (simp add: show_nat.simps [of n] nat_of_digits_snoc)
  qed
qed

lemma hd_show_nat: "n \<noteq> 0 \<Longrightarrow> hd (show_nat n) \<noteq> CHR ''0''"
proof (induction n rule: show_nat.induct)
  case (1 n)
  show ?case
  proof (cases "n < 10")
    case True
    with 1 show ?thesis using digit_char_cases [of n] by (simp add: show_nat.simps [of n])
  next
    case False
    then have "n div 10 \<noteq> 0" by simp
    with 1 False show ?thesis by (simp add: show_nat.simps [of n] show_nat_not_Nil)
  qed
qed

lemma show_nat_no_leading_zero: "\<not> (hd (show_nat n) = CHR ''0'' \<and> length (show_nat n) > 1)"
proof (cases "n = 0")
  case True
  then show ?thesis by (simp add: show_nat.simps [of 0])
next
  case False
  then show ?thesis using hd_show_nat by blast
qed

lemma takeWhile_show_nat: "\<not> is_digit c \<Longrightarrow> takeWhile is_digit (show_nat n @ c # r) = show_nat n"
  using show_nat_digits [of n] by (simp add: takeWhile_append2 list_all_iff)

lemma dropWhile_show_nat: "\<not> is_digit c \<Longrightarrow> dropWhile is_digit (show_nat n @ c # r) = c # r"
  using show_nat_digits [of n] by (simp add: dropWhile_append2 list_all_iff)

lemma show_nat_Cons: "\<exists>c cs. show_nat n = c # cs \<and> is_digit c"
  using show_nat_digits [of n] show_nat_not_Nil [of n] by (cases "show_nat n") auto

lemma sign_show_nat:
  "(case show_nat n @ r of x # _ \<Rightarrow> if x = CHR ''-'' then [x] else [] | [] \<Rightarrow> []) = []"
proof -
  obtain x xs where "show_nat n = x # xs" "is_digit x"
    using show_nat_Cons by blast
  then show ?thesis by (auto simp: is_digit_def)
qed

lemma parse_number_show_nat:
  assumes "c = CHR '','' \<or> c = CHR ''}''"
  shows "parse_number (show_nat n @ c # r) = Parsed (JNum (int n)) (c # r)"
proof -
  from assms have nd: "\<not> is_digit c" by (auto simp: is_digit_def)
  have tail: "parse_frac (c # r) = Some ([], c # r)" "parse_exp (c # r) = Some ([], c # r)"
    using assms by (auto simp: parse_frac_def parse_exp_def)
  show ?thesis
    using nd tail show_nat_no_leading_zero [of n]
    by (simp add: parse_number_def sign_show_nat takeWhile_show_nat dropWhile_show_nat
        show_nat_not_Nil nat_of_digits_show_nat Let_def)
qed

lemma parse_number_show_int:
  assumes "c = CHR '','' \<or> c = CHR ''}''"
  shows "parse_number (show_int i @ c # r) = Parsed (JNum i) (c # r)"
proof (cases "i < 0")
  case True
  from assms have nd: "\<not> is_digit c" by (auto simp: is_digit_def)
  have tail: "parse_frac (c # r) = Some ([], c # r)" "parse_exp (c # r) = Some ([], c # r)"
    using assms by (auto simp: parse_frac_def parse_exp_def)
  from True have "show_int i = CHR ''-'' # show_nat (nat (- i))" by (simp add: show_int_def)
  then show ?thesis
    using True nd tail show_nat_no_leading_zero [of "nat (- i)"]
    by (simp add: parse_number_def takeWhile_show_nat dropWhile_show_nat show_nat_not_Nil
        nat_of_digits_show_nat Let_def)
next
  case False
  then have "show_int i = show_nat (nat i)" by (simp add: show_int_def)
  then show ?thesis
    using False parse_number_show_nat [OF assms, of "nat i" r] by simp
qed

lemma show_int_Cons: "\<exists>x xs. show_int i = x # xs \<and> (x = CHR ''-'' \<or> is_digit x)"
  using show_nat_Cons [of "nat i"] by (auto simp: show_int_def)

lemma parse_value_show_int:
  assumes "c = CHR '','' \<or> c = CHR ''}''"
  shows "parse_value (Suc n) (show_int i @ c # r) = Parsed (JNum i) (c # r)"
proof -
  obtain x xs where x: "show_int i = x # xs" "x = CHR ''-'' \<or> is_digit x"
    using show_int_Cons by blast
  then have "\<not> is_ws x" "x \<noteq> CHR ''[''" "x \<noteq> CHR ''{''" "x \<noteq> CHR 0x22"
    by (auto simp: is_ws_def is_digit_def)
  then have "parse_value (Suc n) ((x # xs) @ c # r) = parse_number ((x # xs) @ c # r)"
    using x(2) by (simp add: skip_ws_def)
  then show ?thesis
    using parse_number_show_int [OF assms, of i r] x(1) by simp
qed

lemma parse_string_id: \<open>parse_string (''id"'' @ r) = Some (''id'', r)\<close>
  by simp

lemma parse_string_qty: \<open>parse_string (''qty"'' @ r) = Some (''qty'', r)\<close>
  by simp

lemma parse_members_item:
  \<open>parse_members (Suc (Suc (Suc n))) (''"id":'' @ show_int i @ '',"qty":'' @ show_int q @ ''}'' @ r) []
     = Parsed (JObj [(''id'', JNum i), (''qty'', JNum q)]) r\<close>
proof -
  have 1: \<open>parse_value (Suc (Suc n)) (show_int i @ CHR '','' # (''"qty":'' @ show_int q @ ''}'' @ r))
      = Parsed (JNum i) (CHR '','' # (''"qty":'' @ show_int q @ ''}'' @ r))\<close>
    by (rule parse_value_show_int) simp
  have 2: \<open>parse_value (Suc n) (show_int q @ CHR ''}'' # r) = Parsed (JNum q) (CHR ''}'' # r)\<close>
    by (rule parse_value_show_int) simp
  show ?thesis
    using 1 2 by (simp add: skip_ws_def is_ws_def)
qed

lemma parse_value_item:
  assumes "4 \<le> f"
  shows "parse_value f (item_text it @ r) = Parsed (json_of_item it) r"
proof -
  from assms obtain n where f: "f = Suc (Suc (Suc (Suc n)))"
    using le_Suc_ex [OF assms] by (auto simp: eval_nat_numeral)
  show ?thesis
    unfolding f using parse_members_item [of n "item_id it" "qty it" r]
    by (simp add: item_text_def json_of_item_def skip_ws_def is_ws_def starts_with_def)
qed

lemma parse_elements_items:
  "length xs + 5 \<le> f \<Longrightarrow>
   parse_elements f (join_commas (map item_text (x # xs)) @ CHR '']'' # r) acc
     = Parsed (JArr (acc @ map json_of_item (x # xs))) r"
proof (induction xs arbitrary: x acc f)
  case Nil
  then obtain m where f: "f = Suc m" and m: "4 \<le> m" by (cases f) auto
  have "parse_value m (item_text x @ CHR '']'' # r) = Parsed (json_of_item x) (CHR '']'' # r)"
    using m by (rule parse_value_item)
  then show ?case unfolding f by (simp add: skip_ws_def is_ws_def)
next
  case (Cons y ys)
  then obtain m where f: "f = Suc m" and m: "length ys + 5 \<le> m" by (cases f) auto
  then have "4 \<le> m" by simp
  then have "parse_value m
          (item_text x @ CHR '','' # join_commas (map item_text (y # ys)) @ CHR '']'' # r)
        = Parsed (json_of_item x) (CHR '','' # join_commas (map item_text (y # ys)) @ CHR '']'' # r)"
    by (rule parse_value_item)
  then show ?case
    unfolding f using Cons.IH [OF m, of y "acc @ [json_of_item x]"]
    by (simp add: skip_ws_def is_ws_def)
qed

lemma parse_value_items_text:
  assumes "length xs + 6 \<le> f"
  shows "parse_value f (items_text xs @ r) = Parsed (json_of_items xs) r"
proof -
  from assms obtain m where f: "f = Suc m" and m: "length xs + 5 \<le> m" by (cases f) auto
  show ?thesis
  proof (cases xs)
    case Nil
    then show ?thesis
      unfolding f by (simp add: items_text_def json_of_items_def skip_ws_def is_ws_def starts_with_def)
  next
    case (Cons y ys)
    have "\<not> starts_with '']'' (skip_ws (join_commas (map item_text (y # ys)) @ CHR '']'' # r))"
      by (cases ys) (simp_all add: item_text_def skip_ws_def is_ws_def starts_with_def)
    moreover have "length ys + 5 \<le> m" using m Cons by simp
    ultimately show ?thesis
      unfolding f using Cons parse_elements_items [of ys m y r "[]"]
      by (simp add: items_text_def json_of_items_def skip_ws_def is_ws_def)
  qed
qed

lemma length_join_commas: "length xs \<le> length (join_commas (map item_text xs)) "
  by (induction xs rule: induct_list012) (simp_all add: item_text_def)

lemma JSON_parse_items_text: "JSON_parse (items_text xs) = Some (json_of_items xs)"
proof -
  have "length xs + 2 \<le> length (items_text xs)"
    using length_join_commas [of xs] by (simp add: items_text_def)
  then have "length xs + 6 \<le> 2 * length (items_text xs) + 2"
    by simp
  then have "parse_value (2 * length (items_text xs) + 2) (items_text xs @ [])
      = Parsed (json_of_items xs) []"
    by (rule parse_value_items_text)
  then show ?thesis
    unfolding JSON_parse_def by (simp add: skip_ws_def)
qed

lemma as_item_json_of_item: "as_item (json_of_item it) = Some it"
  by (simp add: json_of_item_def insert_commute)

lemma as_items_json_of_items: "as_items (json_of_items xs) = Some xs"
  by (simp add: json_of_items_def as_item_json_of_item list_all_iff comp_def)

section \<open>The fuel of the parser\<close>

text \<open>
  Every successful parse consumes at least one character, so the parser never runs out of
  the fuel that \<open>JSON_parse\<close> gives it: \<open>None\<close> always stands for a text that is not JSON.
\<close>

lemma length_skip_ws: "length (skip_ws s) \<le> length s"
  by (simp add: skip_ws_def length_dropWhile_le)

lemma skip_ws_Cons_length: "skip_ws s = c # r \<Longrightarrow> length r < length s"
  using length_skip_ws [of s] by simp

lemma parse_string_shorter: "parse_string s = Some (t, r) \<Longrightarrow> length r < length s"
proof (induction s arbitrary: t r rule: parse_string.induct)
  case 1
  then show ?case by simp
next
  case (2 c s)
  then show ?case
    by (fastforce split: if_splits list.splits)
qed

lemma length_dropWhile_Suc:
  "length (dropWhile P xs) \<le> Suc (length xs)" "length (dropWhile P xs) \<le> Suc (Suc (length xs))"
  using length_dropWhile_le [of P xs] by simp_all

lemma parse_frac_shorter: "parse_frac s = Some (t, r) \<Longrightarrow> length r \<le> length s"
  by (auto simp: parse_frac_def length_dropWhile_le length_dropWhile_Suc split: list.splits if_splits)

lemma parse_exp_shorter: "parse_exp s = Some (t, r) \<Longrightarrow> length r \<le> length s"
  by (auto simp: parse_exp_def Let_def length_dropWhile_le length_dropWhile_Suc
      split: list.splits if_splits)

lemma parse_number_shorter: "parse_number s = Parsed v r \<Longrightarrow> length r < length s"
proof -
  assume a: "parse_number s = Parsed v r"
  define sg where "sg = (case s of x # _ \<Rightarrow> if x = CHR ''-'' then [x] else [] | [] \<Rightarrow> [])"
  define s1 where "s1 = drop (length sg) s"
  from a have ne: "takeWhile is_digit s1 \<noteq> []"
    by (auto simp: parse_number_def Let_def sg_def s1_def split: if_splits)
  then have "length (dropWhile is_digit s1) < length s1"
    by (metis takeWhile_dropWhile_id length_append length_greater_0_conv less_add_same_cancel2)
  moreover have "length s1 \<le> length s" by (simp add: s1_def)
  moreover from a obtain fr r1 ex where "parse_frac (dropWhile is_digit s1) = Some (fr, r1)"
    "parse_exp r1 = Some (ex, r)"
    by (auto simp: parse_number_def Let_def sg_def s1_def split: if_splits option.splits)
  ultimately show ?thesis
    using parse_frac_shorter parse_exp_shorter by fastforce
qed


lemma starts_with_drop: "starts_with p s \<Longrightarrow> p \<noteq> [] \<Longrightarrow> length (drop (length p) s) < length s"
  by (cases s) (auto simp: starts_with_def)

lemma parse_shorter_aux:
  "(\<forall>s v r. parse_value n s = Parsed v r \<longrightarrow> length r < length s)
   \<and> (\<forall>s acc v r. parse_elements n s acc = Parsed v r \<longrightarrow> length r < length s)
   \<and> (\<forall>s acc v r. parse_members n s acc = Parsed v r \<longrightarrow> length r < length s)"
proof (induction n)
  case 0
  show ?case by simp
next
  case (Suc n)
  then have IHv: "\<And>s v r. parse_value n s = Parsed v r \<Longrightarrow> length r < length s"
    and IHe: "\<And>s acc v r. parse_elements n s acc = Parsed v r \<Longrightarrow> length r < length s"
    and IHm: "\<And>s acc v r. parse_members n s acc = Parsed v r \<Longrightarrow> length r < length s"
    by blast+
  have v: "length r < length s" if a: "parse_value (Suc n) s = Parsed v r" for s v r
  proof (cases "skip_ws s")
    case Nil
    with a show ?thesis by simp
  next
    case (Cons c r0)
    then have le: "length (c # r0) \<le> length s" using length_skip_ws [of s] by simp
    have "length r < length (c # r0)"
    proof -
      consider (arr) "c = CHR ''[''" | (obj) "c = CHR ''{''" | (str) "c = CHR 0x22"
        | (num) "c \<noteq> CHR ''[''" "c \<noteq> CHR ''{''" "c \<noteq> CHR 0x22" "c = CHR ''-'' \<or> is_digit c"
        | (lit) "c \<noteq> CHR ''[''" "c \<noteq> CHR ''{''" "c \<noteq> CHR 0x22" "\<not> (c = CHR ''-'' \<or> is_digit c)"
        by blast
      then show ?thesis
      proof cases
        case arr
        show ?thesis
        proof (cases "starts_with '']'' (skip_ws r0)")
          case True
          with a Cons arr have "r = drop 1 (skip_ws r0)" by simp
          then show ?thesis using length_skip_ws [of r0] by simp
        next
          case False
          with a Cons arr have "parse_elements n r0 [] = Parsed v r" by simp
          from IHe [OF this] show ?thesis by simp
        qed
      next
        case obj
        show ?thesis
        proof (cases "starts_with ''}'' (skip_ws r0)")
          case True
          with a Cons obj have "r = drop 1 (skip_ws r0)" by simp
          then show ?thesis using length_skip_ws [of r0] by simp
        next
          case False
          with a Cons obj have "parse_members n r0 [] = Parsed v r" by simp
          from IHm [OF this] show ?thesis by simp
        qed
      next
        case str
        with a Cons obtain t where "parse_string r0 = Some (t, r)"
          by (auto split: option.splits)
        from parse_string_shorter [OF this] show ?thesis by simp
      next
        case num
        with a Cons have "parse_number (c # r0) = Parsed v r" by auto
        from parse_number_shorter [OF this] show ?thesis .
      next
        case lit
        with a Cons have "(starts_with ''null'' (c # r0) \<and> r = drop 4 (c # r0))
            \<or> (starts_with ''true'' (c # r0) \<and> r = drop 4 (c # r0))
            \<or> (starts_with ''false'' (c # r0) \<and> r = drop 5 (c # r0))"
          by (auto split: if_splits)
        then show ?thesis
          using starts_with_drop [of "''null''" "c # r0"] starts_with_drop [of "''true''" "c # r0"]
            starts_with_drop [of "''false''" "c # r0"] by auto
      qed
    qed
    with le show ?thesis by simp
  qed
  have e: "length r < length s" if a: "parse_elements (Suc n) s acc = Parsed v r" for s acc v r
  proof -
    from a obtain x r1 where x: "parse_value n s = Parsed x r1"
      by (auto split: parsed.splits)
    from IHv [OF x] have l1: "length r1 < length s" .
    from a x obtain c r2 where c: "skip_ws r1 = c # r2"
      by (auto split: list.splits)
    then have l2: "length r2 < length r1" by (rule skip_ws_Cons_length)
    from a x c have "(c = CHR '','' \<and> parse_elements n r2 (acc @ [x]) = Parsed v r)
        \<or> (c = CHR '']'' \<and> r = r2)"
      by (auto split: if_splits)
    then show ?thesis
      using IHe [of r2 "acc @ [x]" v r] l1 l2 by auto
  qed
  have m: "length r < length s" if a: "parse_members (Suc n) s acc = Parsed v r" for s acc v r
  proof -
    from a obtain q r0 where q: "skip_ws s = q # r0" "q = CHR 0x22"
      by (auto split: list.splits if_splits)
    then have l0: "length r0 < length s" using skip_ws_Cons_length by blast
    from a q obtain k r1 where k: "parse_string r0 = Some (k, r1)"
      by (auto split: option.splits)
    from parse_string_shorter [OF k] have l1: "length r1 < length r0" .
    from a q k obtain c r2 where c: "skip_ws r1 = c # r2" "c = CHR '':''"
      by (auto split: list.splits if_splits)
    then have l2: "length r2 < length r1" using skip_ws_Cons_length by blast
    from a q k c obtain x r3 where x: "parse_value n r2 = Parsed x r3"
      by (auto split: parsed.splits)
    from IHv [OF x] have l3: "length r3 < length r2" .
    from a q k c x obtain c' r4 where c': "skip_ws r3 = c' # r4"
      by (auto split: list.splits)
    then have l4: "length r4 < length r3" by (rule skip_ws_Cons_length)
    from a q k c x c' have "(c' = CHR '','' \<and> parse_members n r4 (acc @ [(k, x)]) = Parsed v r)
        \<or> (c' = CHR ''}'' \<and> r = r4)"
      by (auto split: if_splits)
    then show ?thesis
      using IHm [of r4 "acc @ [(k, x)]" v r] l0 l1 l2 l3 l4 by auto
  qed
  from v e m show ?case by blast
qed


lemma parse_shorter:
  "parse_value n s = Parsed v r \<Longrightarrow> length r < length s"
  using parse_shorter_aux [of n] by blast

lemma parse_fuel_aux:
  "(\<forall>s. 2 * length s + 2 \<le> n \<longrightarrow> parse_value n s \<noteq> OutOfFuel)
   \<and> (\<forall>s acc. 2 * length s + 3 \<le> n \<longrightarrow> parse_elements n s acc \<noteq> OutOfFuel)
   \<and> (\<forall>s acc. 2 * length s + 3 \<le> n \<longrightarrow> parse_members n s acc \<noteq> OutOfFuel)"
proof (induction n)
  case 0
  show ?case by simp
next
  case (Suc n)
  then have IHv: "\<And>s. 2 * length s + 2 \<le> n \<Longrightarrow> parse_value n s \<noteq> OutOfFuel"
    and IHe: "\<And>s acc. 2 * length s + 3 \<le> n \<Longrightarrow> parse_elements n s acc \<noteq> OutOfFuel"
    and IHm: "\<And>s acc. 2 * length s + 3 \<le> n \<Longrightarrow> parse_members n s acc \<noteq> OutOfFuel"
    by blast+
  have v: "parse_value (Suc n) s \<noteq> OutOfFuel" if a: "2 * length s + 2 \<le> Suc n" for s
  proof (cases "skip_ws s")
    case Nil
    then show ?thesis by simp
  next
    case (Cons c r0)
    then have "length r0 < length s" by (rule skip_ws_Cons_length)
    with a have "2 * length r0 + 3 \<le> n" by simp
    then have "parse_elements n r0 [] \<noteq> OutOfFuel" "parse_members n r0 [] \<noteq> OutOfFuel"
      using IHe IHm by blast+
    moreover have "parse_number (c # r0) \<noteq> OutOfFuel"
      by (simp add: parse_number_def Let_def split: option.splits)
    ultimately show ?thesis
      using Cons by (simp split: option.splits)
  qed
  have e: "parse_elements (Suc n) s acc \<noteq> OutOfFuel" if a: "2 * length s + 3 \<le> Suc n" for s acc
  proof (cases "parse_value n s")
    case (Parsed x r1)
    then have l1: "length r1 < length s" by (rule parse_shorter)
    show ?thesis
    proof (cases "skip_ws r1")
      case Nil
      with Parsed show ?thesis by simp
    next
      case (Cons c r2)
      then have "length r2 < length r1" by (rule skip_ws_Cons_length)
      with l1 a have "2 * length r2 + 3 \<le> n" by simp
      then have "parse_elements n r2 (acc @ [x]) \<noteq> OutOfFuel" using IHe by blast
      with Parsed Cons show ?thesis by simp
    qed
  next
    case Bad
    then show ?thesis by simp
  next
    case OutOfFuel
    moreover from a have "2 * length s + 2 \<le> n" by simp
    ultimately show ?thesis using IHv by blast
  qed
  have m: "parse_members (Suc n) s acc \<noteq> OutOfFuel" if a: "2 * length s + 3 \<le> Suc n" for s acc
  proof (cases "skip_ws s")
    case Nil
    then show ?thesis by simp
  next
    case (Cons q r0)
    then have l0: "length r0 < length s" by (rule skip_ws_Cons_length)
    show ?thesis
    proof (cases "parse_string r0")
      case None
      with Cons show ?thesis by simp
    next
      case (Some kr)
      obtain k r1 where kr: "kr = (k, r1)" by (cases kr)
      with Some have l1: "length r1 < length r0" using parse_string_shorter by blast
      show ?thesis
      proof (cases "skip_ws r1")
        case Nil
        with Cons Some kr show ?thesis by simp
      next
        case c: (Cons c r2)
        then have l2: "length r2 < length r1" by (rule skip_ws_Cons_length)
        show ?thesis
        proof (cases "parse_value n r2")
          case (Parsed x r3)
          then have l3: "length r3 < length r2" by (rule parse_shorter)
          show ?thesis
          proof (cases "skip_ws r3")
            case Nil
            with Cons Some kr c Parsed show ?thesis by simp
          next
            case c': (Cons c' r4)
            then have "length r4 < length r3" by (rule skip_ws_Cons_length)
            with l0 l1 l2 l3 a have "2 * length r4 + 3 \<le> n" by simp
            then have "parse_members n r4 (acc @ [(k, x)]) \<noteq> OutOfFuel" using IHm by blast
            with Cons Some kr c Parsed c' show ?thesis by simp
          qed
        next
          case Bad
          with Cons Some kr c show ?thesis by simp
        next
          case OutOfFuel
          moreover from l0 l1 l2 a have "2 * length r2 + 2 \<le> n" by simp
          ultimately show ?thesis using IHv by blast
        qed
      qed
    qed
  qed
  from v e m show ?case by blast
qed

lemma JSON_parse_fuel: "parse_value (2 * length s + 2) s \<noteq> OutOfFuel"
  using parse_fuel_aux [of "2 * length s + 2"] by simp

lemma JSON_parse_None:
  "JSON_parse s = None \<longleftrightarrow>
     parse_value (2 * length s + 2) s = Bad
     \<or> (\<exists>v r. parse_value (2 * length s + 2) s = Parsed v r \<and> skip_ws r \<noteq> [])"
  using JSON_parse_fuel [of s]
  by (cases "parse_value (2 * length s + 2) s") (simp_all add: JSON_parse_def)

section \<open>Storage\<close>

lemma storage_fetch_storage_save:
  "storage_fetch (storage_save (Some xs) s) = Return (json_of_items xs) (storage_save (Some xs) s)"
proof -
  have "items_text xs \<noteq> []" by (simp add: items_text_def)
  then show ?thesis
    by (simp add: storage_fetch_def storage_save_def setItem_def toJson_def JSON_parse_items_text)
qed

text \<open>
  C9. Whatever item list \<^verbatim>\<open>storage.save\<close> writes, \<^verbatim>\<open>storage.fetch\<close> reads back as the array of
  the same items in the same order, and so does \<^verbatim>\<open>getCart\<close>; when the key is absent or holds
  the empty string, \<^verbatim>\<open>storage.fetch\<close> returns the empty array.
\<close>

theorem storage_round_trip:
  "storage_fetch (storage_save (Some xs) s) = Return (json_of_items xs) (storage_save (Some xs) s)
   \<and> as_items (json_of_items xs) = Some xs
   \<and> bind_result (getCart None (storage_save (Some xs) s)) cart_items
       = Return xs (storage_save (Some xs) s)
   \<and> storage_fetch (s\<lparr>localStorage := (localStorage s)(storage_key := None)\<rparr>)
       = Return (json_of_items []) (s\<lparr>localStorage := (localStorage s)(storage_key := None)\<rparr>)
   \<and> storage_fetch (s\<lparr>localStorage := (localStorage s)(storage_key \<mapsto> [])\<rparr>)
       = Return (json_of_items []) (s\<lparr>localStorage := (localStorage s)(storage_key \<mapsto> [])\<rparr>)"
  by (simp add: storage_fetch_storage_save as_items_json_of_items getCart_def bind_result_def
      cart_items_def)
     (simp add: storage_fetch_def json_of_items_def)

lemma JSON_parse_brace: "JSON_parse ''{'' = None"
  by code_simp

text \<open>
  C2, as the claim states it, fails: a stored text that is not JSON makes \<^verbatim>\<open>storage.fetch\<close>
  throw the \<^verbatim>\<open>SyntaxError\<close> of \<^verbatim>\<open>JSON.parse\<close>; nothing catches it.
\<close>

theorem storage_fetch_malformed_throws:
  "storage_fetch
     \<lparr>eventStack = [SysModified], allItems = Some [],
      localStorage = [storage_key \<mapsto> ''{''], trace = []\<rparr>
   = Throw SyntaxError
     \<lparr>eventStack = [SysModified], allItems = Some [],
      localStorage = [storage_key \<mapsto> ''{''], trace = []\<rparr>"
  by (simp add: storage_fetch_def JSON_parse_brace)

text \<open>
  C2, amended. \<^verbatim>\<open>storage.fetch\<close> returns the empty array when the record is absent or the
  empty string; for any other text it hands on what \<^verbatim>\<open>JSON.parse\<close> does with it: the value
  when the text is JSON (so a non-empty array only when the text deserializes to it), and a
  thrown \<^verbatim>\<open>SyntaxError\<close> when it is not. That is the only error, and the state is untouched.
\<close>

theorem storage_fetch_cases:
  "(localStorage s storage_key = None \<or> localStorage s storage_key = Some []
      \<longrightarrow> storage_fetch s = Return (JArr []) s)
   \<and> (\<forall>b. localStorage s storage_key = Some b \<and> b \<noteq> [] \<and> JSON_parse b = None
      \<longrightarrow> storage_fetch s = Throw SyntaxError s)
   \<and> (\<forall>b v. localStorage s storage_key = Some b \<and> b \<noteq> [] \<and> JSON_parse b = Some v
      \<longrightarrow> storage_fetch s = Return v s)
   \<and> (\<forall>x xs s'. storage_fetch s = Return (JArr (x # xs)) s'
      \<longrightarrow> (\<exists>b. localStorage s storage_key = Some b \<and> JSON_parse b = Some (JArr (x # xs))))
   \<and> (\<forall>e s'. storage_fetch s = Throw e s'
      \<longrightarrow> e = SyntaxError \<and> s' = s
          \<and> (\<exists>b. localStorage s storage_key = Some b \<and> b \<noteq> [] \<and> JSON_parse b = None))"
  by (auto simp: storage_fetch_def split: option.splits if_splits)

theorem storage_fetch_cases_witness:
  "storage_fetch \<lparr>eventStack = [SysModified], allItems = Some [], localStorage = Map.empty, trace = []\<rparr>
     = Return (JArr []) \<lparr>eventStack = [SysModified], allItems = Some [], localStorage = Map.empty, trace = []\<rparr>
   \<and> storage_fetch \<lparr>eventStack = [SysModified], allItems = Some [], localStorage = [storage_key \<mapsto> ''{''], trace = []\<rparr>
     = Throw SyntaxError \<lparr>eventStack = [SysModified], allItems = Some [], localStorage = [storage_key \<mapsto> ''{''], trace = []\<rparr>
   \<and> JSON_parse ''{'' = None"
  using storage_fetch_cases [of "\<lparr>eventStack = [SysModified], allItems = Some [], localStorage = Map.empty, trace = []\<rparr>"]
    storage_fetch_cases [of "\<lparr>eventStack = [SysModified], allItems = Some [], localStorage = [storage_key \<mapsto> ''{''], trace = []\<rparr>"]
    JSON_parse_brace
  by simp

section \<open>Firing and saving\<close>

lemma split_persisted: "split_on CHR '' '' ''persisted'' = [''persisted'']"
  by simp

lemma fire_loop_plain:
  assumes "''sys-modified'' \<notin> set tys"
  shows "length (eventStack s) = n \<Longrightarrow>
    fire_loop rv tys d [i..<n] s
      = Return () (s\<lparr>trace := trace s @ runs tys d (drop i (eventStack s))\<rparr>)"
proof (induction "n - i" arbitrary: i s)
  case 0
  then show ?case by simp (simp add: fire_loop.simps)
next
  case (Suc m)
  then have i: "i < n" by simp
  then have keys: "[i..<n] = i # [Suc i..<n]" by (rule upt_conv_Cons)
  have dr: "drop i (eventStack s) = eventStack s ! i # drop (Suc i) (eventStack s)"
    using i Suc.prems by (simp add: Cons_nth_drop_Suc)
  have m: "m = n - Suc i" using Suc.hyps(2) by simp
  show ?case
  proof (cases "eventStack s ! i")
    case SysModified
    then show ?thesis
      using assms Suc.hyps(1) [OF m Suc.prems] by (simp add: keys dr fire_loop.simps)
  next
    case (Bound t k)
    have "length (eventStack (s\<lparr>trace := trace s @ [Ran k d]\<rparr>)) = n"
      using Suc.prems by simp
    from Suc.hyps(1) [OF m this] Suc.hyps(1) [OF m Suc.prems] Bound show ?thesis
      using i Suc.prems by (simp add: keys dr fire_loop.simps)
  qed
qed

lemma fireCustomEvent_plain:
  assumes "''sys-modified'' \<notin> set (split_on CHR '' '' ty)"
  shows "fireCustomEvent rv ty d s
      = Return () (s\<lparr>trace := trace s @ Fired ty d # runs (split_on CHR '' '' ty) d (eventStack s)\<rparr>)"
  using fire_loop_plain [OF assms, of "s\<lparr>trace := trace s @ [Fired ty d]\<rparr>" "length (eventStack s)" rv d 0]
  by (simp add: fireCustomEvent.simps)

lemma storage_persist_eq:
  "storage_persist rv s
     = Return () (s\<lparr>localStorage := setItem storage_key (toJson (allItems s)) (localStorage s),
                    trace := trace s @ Fired ''persisted'' None # runs [''persisted''] None (eventStack s)\<rparr>)"
  using fireCustomEvent_plain [of "''persisted''" rv None "storage_save (allItems s) s"]
  by (simp add: storage_persist.simps storage_save_def)

lemma save_Accept:
  "rv s = Accept \<Longrightarrow>
   save rv s = Return Accept
     (s\<lparr>localStorage := setItem storage_key (toJson (allItems s)) (localStorage s),
        trace := trace s @ Fired ''persisted'' None # runs [''persisted''] None (eventStack s)\<rparr>)"
  by (simp add: save.simps storage_persist_eq)

lemma save_Reject: "rv s = Reject err \<Longrightarrow> save rv s = Throw (Rejection err) s"
  by (simp add: save.simps)


lemma sys_modified_handler_accept:
  assumes "rv (refresh d (s\<lparr>allItems := d\<rparr>)) = Accept"
  shows "sys_modified_handler rv d s
     = Return () (s\<lparr>allItems := d,
                    localStorage := setItem storage_key (toJson d) (localStorage s),
                    trace := trace s @ Broadcast d # Fired ''persisted'' None
                               # runs [''persisted''] None (eventStack s)\<rparr>)"
  using assms save_Accept [of rv "refresh d (s\<lparr>allItems := d\<rparr>)"]
  by (simp add: sys_modified_handler.simps refresh_def)

lemma sys_modified_handler_reject:
  assumes "rv (refresh d (s\<lparr>allItems := d\<rparr>)) = Reject err"
  shows "sys_modified_handler rv d s = Throw (Rejection err) (refresh d (s\<lparr>allItems := d\<rparr>))"
  using assms save_Reject [of rv "refresh d (s\<lparr>allItems := d\<rparr>)" err]
  by (simp add: sys_modified_handler.simps)

lemma setItem_idem: "setItem k v (setItem k v m) = setItem k v m"
  by (simp add: setItem_def)

lemma fire_loop_accept:
  assumes acc: "\<forall>s. rv s = Accept"
  shows "length (eventStack s) = n \<Longrightarrow>
    fire_loop rv tys d [i..<n] s
      = Return ()
          ((if ''sys-modified'' \<in> set tys \<and> SysModified \<in> set (drop i (eventStack s))
            then s\<lparr>allItems := d, localStorage := setItem storage_key (toJson d) (localStorage s)\<rparr>
            else s)
           \<lparr>trace := trace s @ fire_effects tys d (eventStack s) (drop i (eventStack s))\<rparr>)"
proof (induction "n - i" arbitrary: i s)
  case 0
  then show ?case by simp (simp add: fire_loop.simps)
next
  case (Suc m)
  then have i: "i < n" by simp
  then have keys: "[i..<n] = i # [Suc i..<n]" by (rule upt_conv_Cons)
  have dr: "drop i (eventStack s) = eventStack s ! i # drop (Suc i) (eventStack s)"
    using i Suc.prems by (simp add: Cons_nth_drop_Suc)
  have m: "m = n - Suc i" using Suc.hyps(2) by simp
  show ?case
  proof (cases "eventStack s ! i")
    case SysModified
    show ?thesis
    proof (cases "''sys-modified'' \<in> set tys")
      case False
      then show ?thesis
        using SysModified Suc.hyps(1) [OF m Suc.prems] by (simp add: keys dr fire_loop.simps)
    next
      case True
      define s' where "s' = s\<lparr>allItems := d,
                    localStorage := setItem storage_key (toJson d) (localStorage s),
                    trace := trace s @ Broadcast d # Fired ''persisted'' None
                               # runs [''persisted''] None (eventStack s)\<rparr>"
      have h: "sys_modified_handler rv d s = Return () s'"
        unfolding s'_def using acc by (simp add: sys_modified_handler_accept)
      have "length (eventStack s') = n" using Suc.prems by (simp add: s'_def)
      from Suc.hyps(1) [OF m this] have
        "fire_loop rv tys d [Suc i..<n] s' = Return ()
          (s'\<lparr>trace := trace s' @ fire_effects tys d (eventStack s) (drop (Suc i) (eventStack s))\<rparr>)"
        by (simp add: s'_def setItem_idem)
      then show ?thesis
        using True SysModified i Suc.prems h
        by (simp add: keys dr fire_loop.simps) (simp add: s'_def)
    qed
  next
    case (Bound t k)
    have "length (eventStack (s\<lparr>trace := trace s @ [Ran k d]\<rparr>)) = n"
      using Suc.prems by simp
    from Suc.hyps(1) [OF m this] Suc.hyps(1) [OF m Suc.prems] Bound show ?thesis
      using i Suc.prems by (simp add: keys dr fire_loop.simps)
  qed
qed

lemma fireCustomEvent_accept:
  assumes acc: "\<forall>s. rv s = Accept"
  shows "fireCustomEvent rv ty d s
      = Return ()
          ((if ''sys-modified'' \<in> set (split_on CHR '' '' ty) \<and> SysModified \<in> set (eventStack s)
            then s\<lparr>allItems := d, localStorage := setItem storage_key (toJson d) (localStorage s)\<rparr>
            else s)
           \<lparr>trace := trace s @ Fired ty d
              # fire_effects (split_on CHR '' '' ty) d (eventStack s) (eventStack s)\<rparr>)"
  using fire_loop_accept [OF acc, of "s\<lparr>trace := trace s @ [Fired ty d]\<rparr>" "length (eventStack s)" _ d 0]
  by (simp add: fireCustomEvent.simps)

lemma items_text_example: \<open>items_text [\<lparr>item_id = 1, qty = 2\<rparr>] = ''[{"id":1,"qty":2}]''\<close>
  by code_simp

text \<open>
  C3. \<^verbatim>\<open>cart.save\<close> asks the reviewer. When the review rejects, the rejection handler throws
  what it was given and the state, the stored record included, is what it was before the
  call. When the review accepts, \<^verbatim>\<open>storage.persist\<close> writes the text of the in-memory list
  under the key and fires \<^verbatim>\<open>'persisted'\<close>, which runs the handlers bound to it; the record
  then reads back as that list.
\<close>

theorem save_review:
  "(\<forall>err. rv s = Reject err \<longrightarrow> save rv s = Throw (Rejection err) s)
   \<and> (rv s = Accept \<longrightarrow>
        save rv s = Return Accept
          (s\<lparr>localStorage := setItem storage_key (toJson (allItems s)) (localStorage s),
             trace := trace s @ Fired ''persisted'' None # runs [''persisted''] None (eventStack s)\<rparr>))
   \<and> (\<forall>xs. rv s = Accept \<and> allItems s = Some xs \<longrightarrow>
        (\<exists>s'. save rv s = Return Accept s'
           \<and> localStorage s' storage_key = Some (items_text xs)
           \<and> storage_fetch s' = Return (json_of_items xs) s'))"
proof (intro conjI allI impI)
  fix err assume "rv s = Reject err"
  then show "save rv s = Throw (Rejection err) s" by (rule save_Reject)
next
  assume "rv s = Accept"
  then show "save rv s = Return Accept
          (s\<lparr>localStorage := setItem storage_key (toJson (allItems s)) (localStorage s),
             trace := trace s @ Fired ''persisted'' None # runs [''persisted''] None (eventStack s)\<rparr>)"
    by (rule save_Accept)
next
  fix xs assume a: "rv s = Accept \<and> allItems s = Some xs"
  have "items_text xs \<noteq> []" by (simp add: items_text_def)
  then show "\<exists>s'. save rv s = Return Accept s'
           \<and> localStorage s' storage_key = Some (items_text xs)
           \<and> storage_fetch s' = Return (json_of_items xs) s'"
    using a save_Accept [of rv s]
    by (simp add: setItem_def toJson_def storage_fetch_def JSON_parse_items_text)
qed

theorem save_review_witness:
  \<open>save (\<lambda>s. Reject ''no'')
      \<lparr>eventStack = [SysModified, Bound ''persisted'' 7], allItems = Some [\<lparr>item_id = 1, qty = 2\<rparr>],
       localStorage = Map.empty, trace = []\<rparr>
    = Throw (Rejection ''no'')
      \<lparr>eventStack = [SysModified, Bound ''persisted'' 7], allItems = Some [\<lparr>item_id = 1, qty = 2\<rparr>],
       localStorage = Map.empty, trace = []\<rparr>
   \<and> save Reviewer_review
      \<lparr>eventStack = [SysModified, Bound ''persisted'' 7], allItems = Some [\<lparr>item_id = 1, qty = 2\<rparr>],
       localStorage = Map.empty, trace = []\<rparr>
    = Return Accept
      \<lparr>eventStack = [SysModified, Bound ''persisted'' 7], allItems = Some [\<lparr>item_id = 1, qty = 2\<rparr>],
       localStorage = [''cart'' \<mapsto> ''[{"id":1,"qty":2}]''],
       trace = [Fired ''persisted'' None, Ran 7 None]\<rparr>\<close>
  using save_review [of "\<lambda>s. Reject ''no''"
      "\<lparr>eventStack = [SysModified, Bound ''persisted'' 7], allItems = Some [\<lparr>item_id = 1, qty = 2\<rparr>],
       localStorage = Map.empty, trace = []\<rparr>"]
    save_review [of Reviewer_review
      "\<lparr>eventStack = [SysModified, Bound ''persisted'' 7], allItems = Some [\<lparr>item_id = 1, qty = 2\<rparr>],
       localStorage = Map.empty, trace = []\<rparr>"]
  by (simp add: Reviewer_review_def setItem_def toJson_def storage_key_def items_text_example)

section \<open>Looking an item up\<close>

lemma last_match_absent:
  "ident \<notin> item_id ` set xs \<Longrightarrow> last_match ident xs i idx = idx"
  by (induction xs arbitrary: i idx) auto

lemma last_match_present:
  "ident \<in> item_id ` set xs \<Longrightarrow>
   \<exists>k<length xs. last_match ident xs i idx = int (i + k) \<and> item_id (xs ! k) = ident
      \<and> (\<forall>j<length xs. k < j \<longrightarrow> item_id (xs ! j) \<noteq> ident)"
proof (induction xs arbitrary: i idx)
  case Nil
  then show ?case by simp
next
  case (Cons x xs)
  show ?case
  proof (cases "ident \<in> item_id ` set xs")
    case True
    from Cons.IH [OF True, of "Suc i" "if item_id x = ident then int i else idx"]
    obtain k where k: "k < length xs"
      "last_match ident xs (Suc i) (if item_id x = ident then int i else idx) = int (Suc i + k)"
      "item_id (xs ! k) = ident" "\<forall>j<length xs. k < j \<longrightarrow> item_id (xs ! j) \<noteq> ident"
      by blast
    have "\<forall>j<length (x # xs). Suc k < j \<longrightarrow> item_id ((x # xs) ! j) \<noteq> ident"
    proof (intro allI impI)
      fix j assume "j < length (x # xs)" "Suc k < j"
      then obtain j' where "j = Suc j'" "j' < length xs" "k < j'" by (cases j) auto
      with k(4) show "item_id ((x # xs) ! j) \<noteq> ident" by simp
    qed
    with k show ?thesis by (intro exI [of _ "Suc k"]) simp
  next
    case False
    with Cons.prems have x: "item_id x = ident" by auto
    have "\<forall>j<length (x # xs). 0 < j \<longrightarrow> item_id ((x # xs) ! j) \<noteq> ident"
    proof (intro allI impI)
      fix j assume "j < length (x # xs)" "0 < j"
      then obtain j' where "j = Suc j'" "j' < length xs" by (cases j) auto
      with False show "item_id ((x # xs) ! j) \<noteq> ident" by (auto simp: image_iff)
    qed
    with x False show ?thesis
      by (intro exI [of _ 0]) (simp add: last_match_absent)
  qed
qed

lemma last_filter_nth:
  assumes "k < length xs" "P (xs ! k)" "\<forall>j<length xs. k < j \<longrightarrow> \<not> P (xs ! j)"
  shows "filter P xs \<noteq> [] \<and> last (filter P xs) = xs ! k"
proof -
  have xs: "xs = take k xs @ xs ! k # drop (Suc k) xs"
    using assms(1) by (simp add: id_take_nth_drop)
  have "filter P (drop (Suc k) xs) = []"
    using assms(3) by (auto simp: filter_empty_conv in_set_conv_nth)
  then have "filter P xs = filter P (take k xs) @ [xs ! k]"
    using assms(2) by (subst xs) simp
  then show ?thesis by simp
qed

lemma find_by_id_absent:
  "ident \<notin> item_id ` set xs \<Longrightarrow> find_by_id ident xs = \<lparr>item = None, index = - 1\<rparr>"
  by (auto simp: find_by_id_def last_match_absent filter_empty_conv)

lemma find_by_id_present:
  assumes "ident \<in> item_id ` set xs"
  shows "\<exists>k<length xs. find_by_id ident xs = \<lparr>item = Some (xs ! k), index = int k\<rparr>
      \<and> item_id (xs ! k) = ident \<and> (\<forall>j<length xs. k < j \<longrightarrow> item_id (xs ! j) \<noteq> ident)"
proof -
  from last_match_present [OF assms, of 0 "- 1"]
  obtain k where k: "k < length xs" "last_match ident xs 0 (- 1) = int k"
    "item_id (xs ! k) = ident" "\<forall>j<length xs. k < j \<longrightarrow> item_id (xs ! j) \<noteq> ident"
    by auto
  from last_filter_nth [of k xs "\<lambda>it. item_id it = ident"] k
  have "filter (\<lambda>it. item_id it = ident) xs \<noteq> []"
    "last (filter (\<lambda>it. item_id it = ident) xs) = xs ! k" by auto
  with k show ?thesis by (intro exI [of _ k]) (simp add: find_by_id_def)
qed

lemma distinct_ids_update:
  assumes "distinct (map item_id c)" "k < length c" "item_id (c ! k) = i"
  shows "c[k := f (c ! k)] = map (\<lambda>x. if item_id x = i then f x else x) c"
proof (rule nth_equalityI)
  show "length (c[k := f (c ! k)]) = length (map (\<lambda>x. if item_id x = i then f x else x) c)"
    by simp
next
  fix j assume j: "j < length (c[k := f (c ! k)])"
  show "c[k := f (c ! k)] ! j = map (\<lambda>x. if item_id x = i then f x else x) c ! j"
  proof (cases "j = k")
    case True
    then show ?thesis using assms by simp
  next
    case False
    have "item_id (c ! j) \<noteq> item_id (c ! k)"
      using assms(1,2) j False by (simp add: distinct_conv_nth)
    then show ?thesis using assms(3) j False by simp
  qed
qed

lemma distinct_ids_delete:
  assumes "distinct (map item_id c)" "k < length c" "item_id (c ! k) = i"
  shows "take k c @ drop (Suc k) c = filter (\<lambda>x. item_id x \<noteq> i) c"
proof -
  have c: "c = take k c @ c ! k # drop (Suc k) c"
    using assms(2) by (simp add: id_take_nth_drop)
  have d: "distinct (map item_id (take k c) @ item_id (c ! k) # map item_id (drop (Suc k) c))"
    using assms(1) by (subst (asm) c) simp
  then have "\<forall>x\<in>set (take k c). item_id x \<noteq> i" "\<forall>x\<in>set (drop (Suc k) c). item_id x \<noteq> i"
    using assms(3) by (auto simp: image_iff)
  then have "filter (\<lambda>x. item_id x \<noteq> i) (take k c) = take k c"
    "filter (\<lambda>x. item_id x \<noteq> i) (drop (Suc k) c) = drop (Suc k) c"
    by (simp_all add: filter_id_conv)
  then show ?thesis using assms(3) by (subst (3) c) simp
qed

section \<open>Operations on a stored cart\<close>

lemma fireCustomEvent_fired:
  "\<forall>s. rv s = Accept \<Longrightarrow> fireCustomEvent rv ty d s = Return () (fired ty d s)"
  unfolding fired_def by (rule fireCustomEvent_accept)

lemma eventStack_fired: "eventStack (fired ty d s) = eventStack s"
  by (simp add: fired_def)

lemma trace_fired:
  "trace (fired ty d s) = trace s @ Fired ty d
      # fire_effects (split_on CHR '' '' ty) d (eventStack s) (eventStack s)"
  by (simp add: fired_def)

lemma storage_fetch_state: "storage_fetch s = Return v s' \<Longrightarrow> s' = s"
  by (auto simp: storage_fetch_def split: option.splits if_splits)

lemma stored_cart_text: "localStorage s storage_key = Some (items_text xs) \<Longrightarrow> stored_cart s = Some xs"
proof -
  assume a: "localStorage s storage_key = Some (items_text xs)"
  have "items_text xs \<noteq> []" by (simp add: items_text_def)
  with a show ?thesis
    by (simp add: stored_cart_def storage_fetch_def JSON_parse_items_text as_items_json_of_items)
qed

lemma fired_sys:
  assumes "''sys-modified'' \<in> set (split_on CHR '' '' ty)" "SysModified \<in> set (eventStack s)"
  shows "allItems (fired ty (Some xs) s) = Some xs"
    and "localStorage (fired ty (Some xs) s) = (localStorage s)(storage_key \<mapsto> items_text xs)"
    and "stored_cart (fired ty (Some xs) s) = Some xs"
proof -
  show "allItems (fired ty (Some xs) s) = Some xs" using assms by (simp add: fired_def)
  show l: "localStorage (fired ty (Some xs) s) = (localStorage s)(storage_key \<mapsto> items_text xs)"
    using assms by (simp add: fired_def setItem_def toJson_def)
  show "stored_cart (fired ty (Some xs) s) = Some xs"
    by (rule stored_cart_text) (simp add: l)
qed

lemma fired_no_sys:
  assumes "SysModified \<notin> set (eventStack s)"
  shows "allItems (fired ty d s) = allItems s"
    and "localStorage (fired ty d s) = localStorage s"
    and "stored_cart (fired ty d s) = stored_cart s"
  using assms by (simp_all add: fired_def stored_cart_def storage_fetch_def split: option.splits)

lemma bind_result_Return: "bind_result (Return x s) f = f x s"
  by (simp add: bind_result_def)

lemma bind_result_Throw: "bind_result (Throw e s) f = Throw e s"
  by (simp add: bind_result_def)

lemma read_cart:
  assumes "stored_cart s = Some c"
  shows "bind_result (getCart None s) (\<lambda>v s1. bind_result (cart_items v s1) f) = f c s"
proof -
  from assms obtain v s' where v: "storage_fetch s = Return v s'" "as_items v = Some c"
    by (auto simp: stored_cart_def split: result.splits)
  then have "s' = s" by (simp add: storage_fetch_state)
  with v show ?thesis by (simp add: getCart_def bind_result_def cart_items_def)
qed

lemma getById_stored:
  assumes "stored_cart s = Some c"
  shows "getById i None s = Return (find_by_id i c) s"
  using read_cart [OF assms, of "\<lambda>cartItems s2. Return (find_by_id i cartItems) s2"]
  by (simp add: getById_def)

lemma split_added:
  "split_on CHR '' '' ''modified added sys-modified'' = [''modified'', ''added'', ''sys-modified'']"
  by simp

lemma split_removed:
  "split_on CHR '' '' ''modified removed sys-modified'' = [''modified'', ''removed'', ''sys-modified'']"
  by simp

lemma split_updated:
  "split_on CHR '' '' ''modified updated sys-modified'' = [''modified'', ''updated'', ''sys-modified'']"
  by simp

lemma split_cleared:
  "split_on CHR '' '' ''modified removed cleared sys-modified''
     = [''modified'', ''removed'', ''cleared'', ''sys-modified'']"
  by simp

lemma remove_absent:
  assumes "stored_cart s = Some c" "i \<notin> item_id ` set c"
  shows "remove rv i s = Return False s"
  using assms(2)
  by (simp add: remove_def getById_stored [OF assms(1)] read_cart [OF assms(1)]
      find_by_id_absent bind_result_Return)

lemma remove_present:
  assumes acc: "\<forall>s. rv s = Accept" and c: "stored_cart s = Some c" and i: "i \<in> item_id ` set c"
  shows "\<exists>k<length c. item_id (c ! k) = i
      \<and> (\<forall>j<length c. k < j \<longrightarrow> item_id (c ! j) \<noteq> i)
      \<and> remove rv i s
          = Return True (fired ''modified removed sys-modified'' (Some (take k c @ drop (Suc k) c)) s)"
proof -
  from find_by_id_present [OF i] obtain k where k: "k < length c"
    "find_by_id i c = \<lparr>item = Some (c ! k), index = int k\<rparr>" "item_id (c ! k) = i"
    "\<forall>j<length c. k < j \<longrightarrow> item_id (c ! j) \<noteq> i" by blast
  have "remove rv i s
      = Return True (fired ''modified removed sys-modified'' (Some (take k c @ drop (Suc k) c)) s)"
    using k(2)
    by (simp add: remove_def getById_stored [OF c] read_cart [OF c] bind_result_Return
        splice_array_def fireCustomEvent_fired [OF acc])
  with k show ?thesis by blast
qed

lemma changeQuantity_absent:
  assumes "stored_cart s = Some c" "i \<notin> item_id ` set c"
  shows "changeQuantity rv i q cb s = Return False s"
  using assms(2)
  by (simp add: changeQuantity_def read_cart [OF assms(1)] getById_stored [OF assms(1)]
      find_by_id_absent bind_result_Return)

lemma changeQuantity_present:
  assumes acc: "\<forall>s. rv s = Accept" and c: "stored_cart s = Some c" and i: "i \<in> item_id ` set c"
  shows "\<exists>k<length c. item_id (c ! k) = i
      \<and> (\<forall>j<length c. k < j \<longrightarrow> item_id (c ! j) \<noteq> i)
      \<and> changeQuantity rv i q cb s
          = Return True
             (case cb of
                None \<Rightarrow> fired ''modified updated sys-modified'' (Some (c[k := (c ! k)\<lparr>qty := q\<rparr>])) s
              | Some f \<Rightarrow>
                  (fired ''modified updated sys-modified'' (Some (c[k := (c ! k)\<lparr>qty := q\<rparr>])) s)
                  \<lparr>trace := trace (fired ''modified updated sys-modified''
                                     (Some (c[k := (c ! k)\<lparr>qty := q\<rparr>])) s)
                             @ [Ran f (Some (c[k := (c ! k)\<lparr>qty := q\<rparr>]))]\<rparr>)"
proof -
  from find_by_id_present [OF i] obtain k where k: "k < length c"
    "find_by_id i c = \<lparr>item = Some (c ! k), index = int k\<rparr>" "item_id (c ! k) = i"
    "\<forall>j<length c. k < j \<longrightarrow> item_id (c ! j) \<noteq> i" by blast
  have sp: "splice_array c k 1 [(c ! k)\<lparr>qty := q\<rparr>] = c[k := (c ! k)\<lparr>qty := q\<rparr>]"
    using k(1) by (simp add: splice_array_def upd_conv_take_nth_drop)
  have "changeQuantity rv i q cb s
          = Return True
             (case cb of
                None \<Rightarrow> fired ''modified updated sys-modified'' (Some (c[k := (c ! k)\<lparr>qty := q\<rparr>])) s
              | Some f \<Rightarrow>
                  (fired ''modified updated sys-modified'' (Some (c[k := (c ! k)\<lparr>qty := q\<rparr>])) s)
                  \<lparr>trace := trace (fired ''modified updated sys-modified''
                                     (Some (c[k := (c ! k)\<lparr>qty := q\<rparr>])) s)
                             @ [Ran f (Some (c[k := (c ! k)\<lparr>qty := q\<rparr>]))]\<rparr>)"
    using k(2) sp
    by (simp add: changeQuantity_def read_cart [OF c] getById_stored [OF c] bind_result_Return
        fireCustomEvent_fired [OF acc] Let_def split: option.split)
  with k show ?thesis by blast
qed

section \<open>The loop of \<^verbatim>\<open>addItems\<close>\<close>

lemma put_entry_find_by_id:
  "put_entry (find_by_id (item_id it) c) it c = Some (add_entry it c)"
proof (cases "item_id it \<in> item_id ` set c")
  case True
  from find_by_id_present [OF True] obtain k where "k < length c"
    "find_by_id (item_id it) c = \<lparr>item = Some (c ! k), index = int k\<rparr>" by blast
  then show ?thesis by (simp add: add_entry_def put_entry_def)
next
  case False
  then show ?thesis by (simp add: add_entry_def put_entry_def find_by_id_absent)
qed

lemma add_entry_absent:
  "item_id it \<notin> item_id ` set c \<Longrightarrow> add_entry it c = c @ [it]"
  by (simp add: add_entry_def put_entry_def find_by_id_absent)

lemma add_entry_present:
  assumes "item_id it \<in> item_id ` set c"
  shows "\<exists>k<length c. item_id (c ! k) = item_id it
      \<and> (\<forall>j<length c. k < j \<longrightarrow> item_id (c ! j) \<noteq> item_id it)
      \<and> add_entry it c = c[k := (c ! k)\<lparr>qty := qty (c ! k) + qty it\<rparr>]"
proof -
  from find_by_id_present [OF assms] obtain k where k: "k < length c"
    "find_by_id (item_id it) c = \<lparr>item = Some (c ! k), index = int k\<rparr>"
    "item_id (c ! k) = item_id it"
    "\<forall>j<length c. k < j \<longrightarrow> item_id (c ! j) \<noteq> item_id it" by blast
  then have "add_entry it c = c[k := (c ! k)\<lparr>qty := qty (c ! k) + qty it\<rparr>]"
    by (simp add: add_entry_def put_entry_def)
  with k show ?thesis by blast
qed

lemma map_item_id_add_entry:
  "map item_id (add_entry it c)
     = (if item_id it \<in> item_id ` set c then map item_id c else map item_id c @ [item_id it])"
proof (cases "item_id it \<in> item_id ` set c")
  case True
  from add_entry_present [OF True] obtain k where k: "k < length c" "item_id (c ! k) = item_id it"
    "add_entry it c = c[k := (c ! k)\<lparr>qty := qty (c ! k) + qty it\<rparr>]" by blast
  have "map item_id (c[k := (c ! k)\<lparr>qty := qty (c ! k) + qty it\<rparr>]) = map item_id c"
    using k(1) by (simp add: map_update list_update_same_conv)
  with True k show ?thesis by simp
next
  case False
  then show ?thesis by (simp add: add_entry_absent)
qed

lemma distinct_add_entry:
  "distinct (map item_id c) \<Longrightarrow> distinct (map item_id (add_entry it c))"
  by (simp add: map_item_id_add_entry)

lemma getById_given: "getById i (Some xs) s = Return (find_by_id i xs) s"
  by (simp add: getById_def)

lemma length_snapshots: "length (snapshots c entries) = length entries"
  by (induction entries arbitrary: c) simp_all

lemma snapshots_nth:
  "k < length entries \<Longrightarrow>
   snapshots c entries ! k = foldl (\<lambda>c it. add_entry it c) c (take (Suc k) entries)"
proof (induction entries arbitrary: c k)
  case Nil
  then show ?case by simp
next
  case (Cons it rest)
  then show ?case by (cases k) simp_all
qed

lemma last_snapshots:
  "last (c # snapshots c entries) = foldl (\<lambda>c it. add_entry it c) c entries"
  by (induction entries arbitrary: c) simp_all

lemma addItems_loop_accept:
  assumes acc: "\<forall>s. rv s = Accept"
  shows "addItems_loop rv entries c s
     = Return (last (c # snapshots c entries))
         (foldl (\<lambda>s snap. fired ''modified added sys-modified'' (Some snap) s) s
            (snapshots c entries))"
proof (induction entries arbitrary: c s)
  case Nil
  show ?case by simp
next
  case (Cons it rest)
  show ?case
    using Cons.IH [of "add_entry it c" "fired ''modified added sys-modified'' (Some (add_entry it c)) s"]
    by (simp add: getById_given put_entry_find_by_id fireCustomEvent_fired [OF acc])
qed

lemma addItems_accept:
  assumes acc: "\<forall>s. rv s = Accept" and c: "stored_cart s = Some c"
  shows "addItems rv (Array entries) s
     = Return (last (c # snapshots c entries))
         (foldl (\<lambda>s snap. fired ''modified added sys-modified'' (Some snap) s) s
            (snapshots c entries))"
  by (simp add: addItems_def read_cart [OF c] addItems_loop_accept [OF acc])

lemma eventStack_foldl_fired:
  "eventStack (foldl (\<lambda>s snap. fired ty (Some snap) s) s snaps) = eventStack s"
  by (induction snaps arbitrary: s) (simp_all add: eventStack_fired)

lemma trace_foldl_fired:
  "trace (foldl (\<lambda>s snap. fired ty (Some snap) s) s snaps)
     = trace s @ concat (map (\<lambda>snap. Fired ty (Some snap)
          # fire_effects (split_on CHR '' '' ty) (Some snap) (eventStack s) (eventStack s)) snaps)"
  by (induction snaps arbitrary: s) (simp_all add: eventStack_fired trace_fired)

lemma foldl_fired_sys:
  assumes "''sys-modified'' \<in> set (split_on CHR '' '' ty)" "SysModified \<in> set (eventStack s)"
    "snaps \<noteq> []"
  shows "allItems (foldl (\<lambda>s snap. fired ty (Some snap) s) s snaps) = Some (last snaps)"
    and "stored_cart (foldl (\<lambda>s snap. fired ty (Some snap) s) s snaps) = Some (last snaps)"
proof -
  obtain xs x where snaps: "snaps = xs @ [x]"
    using assms(3) by (cases snaps rule: rev_cases) auto
  have sys: "SysModified \<in> set (eventStack (foldl (\<lambda>s snap. fired ty (Some snap) s) s xs))"
    using assms(2) by (simp add: eventStack_foldl_fired)
  show "allItems (foldl (\<lambda>s snap. fired ty (Some snap) s) s snaps) = Some (last snaps)"
    using fired_sys(1) [OF assms(1) sys] by (simp add: snaps)
  show "stored_cart (foldl (\<lambda>s snap. fired ty (Some snap) s) s snaps) = Some (last snaps)"
    using fired_sys(3) [OF assms(1) sys] by (simp add: snaps)
qed

section \<open>Removing and updating\<close>

lemma Reviewer_review_accepts: "\<forall>s. Reviewer_review s = Accept"
  by (simp add: Reviewer_review_def)

text \<open>
  C7. With a reviewer that accepts and a stored cart \<open>c\<close>: when an entry has the id,
  \<^verbatim>\<open>remove(id)\<close> returns true, fires \<^verbatim>\<open>'modified removed sys-modified'\<close> with \<open>c\<close> less the
  entry at the position \<open>k\<close> of that id (nothing else moves), and with the binding of
  \<^verbatim>\<open>init\<close> in place that list is what is stored and held in memory afterwards; for a cart
  with one entry per id it is \<open>c\<close> without the entries of that id. When no entry has the id,
  \<^verbatim>\<open>remove\<close> returns false, throws nothing and leaves the whole state as it was.
\<close>

theorem remove_iff_present:
  assumes "\<forall>s. rv s = Accept" and "stored_cart s = Some c"
  shows "(i \<in> item_id ` set c \<longrightarrow>
           (\<exists>k<length c. \<exists>s' evs. item_id (c ! k) = i
              \<and> remove rv i s = Return True s'
              \<and> trace s' = trace s
                   @ Fired ''modified removed sys-modified'' (Some (take k c @ drop (Suc k) c)) # evs
              \<and> (SysModified \<in> set (eventStack s) \<longrightarrow>
                   stored_cart s' = Some (take k c @ drop (Suc k) c)
                   \<and> allItems s' = Some (take k c @ drop (Suc k) c))
              \<and> (distinct (map item_id c) \<longrightarrow>
                   take k c @ drop (Suc k) c = filter (\<lambda>x. item_id x \<noteq> i) c)))
       \<and> (i \<notin> item_id ` set c \<longrightarrow> remove rv i s = Return False s)"
proof (intro conjI impI)
  assume "i \<in> item_id ` set c"
  from remove_present [OF assms this] obtain k where k: "k < length c" "item_id (c ! k) = i"
    "remove rv i s
       = Return True (fired ''modified removed sys-modified'' (Some (take k c @ drop (Suc k) c)) s)"
    by blast
  let ?c' = "take k c @ drop (Suc k) c"
  let ?s' = "fired ''modified removed sys-modified'' (Some ?c') s"
  have sys: "''sys-modified'' \<in> set (split_on CHR '' '' ''modified removed sys-modified'')"
    by (simp add: split_removed)
  have "trace ?s' = trace s @ Fired ''modified removed sys-modified'' (Some ?c')
      # fire_effects (split_on CHR '' '' ''modified removed sys-modified'') (Some ?c')
          (eventStack s) (eventStack s)"
    by (rule trace_fired)
  moreover have "SysModified \<in> set (eventStack s) \<longrightarrow>
      stored_cart ?s' = Some ?c' \<and> allItems ?s' = Some ?c'"
    using fired_sys(1,3) [OF sys] by blast
  moreover have "distinct (map item_id c) \<longrightarrow> ?c' = filter (\<lambda>x. item_id x \<noteq> i) c"
    using distinct_ids_delete [of c k i] k(1,2) by blast
  ultimately show "\<exists>k<length c. \<exists>s' evs. item_id (c ! k) = i
              \<and> remove rv i s = Return True s'
              \<and> trace s' = trace s
                   @ Fired ''modified removed sys-modified'' (Some (take k c @ drop (Suc k) c)) # evs
              \<and> (SysModified \<in> set (eventStack s) \<longrightarrow>
                   stored_cart s' = Some (take k c @ drop (Suc k) c)
                   \<and> allItems s' = Some (take k c @ drop (Suc k) c))
              \<and> (distinct (map item_id c) \<longrightarrow>
                   take k c @ drop (Suc k) c = filter (\<lambda>x. item_id x \<noteq> i) c)"
    using k by blast
next
  assume "i \<notin> item_id ` set c"
  then show "remove rv i s = Return False s" by (rule remove_absent [OF assms(2)])
qed

theorem remove_iff_present_witness:
  "remove Reviewer_review 9
     \<lparr>eventStack = [SysModified], allItems = Some [],
      localStorage = [storage_key \<mapsto> items_text [\<lparr>item_id = 1, qty = 2\<rparr>, \<lparr>item_id = 3, qty = 4\<rparr>]],
      trace = []\<rparr>
   = Return False
     \<lparr>eventStack = [SysModified], allItems = Some [],
      localStorage = [storage_key \<mapsto> items_text [\<lparr>item_id = 1, qty = 2\<rparr>, \<lparr>item_id = 3, qty = 4\<rparr>]],
      trace = []\<rparr>
   \<and> (\<exists>s'. remove Reviewer_review 1
     \<lparr>eventStack = [SysModified], allItems = Some [],
      localStorage = [storage_key \<mapsto> items_text [\<lparr>item_id = 1, qty = 2\<rparr>, \<lparr>item_id = 3, qty = 4\<rparr>]],
      trace = []\<rparr> = Return True s'
        \<and> stored_cart s' = Some [\<lparr>item_id = 3, qty = 4\<rparr>]
        \<and> allItems s' = Some [\<lparr>item_id = 3, qty = 4\<rparr>])"
proof -
  let ?c = "[\<lparr>item_id = 1, qty = 2\<rparr>, \<lparr>item_id = 3, qty = 4\<rparr>]"
  let ?s = "\<lparr>eventStack = [SysModified], allItems = Some [],
      localStorage = [storage_key \<mapsto> items_text ?c], trace = []\<rparr>"
  have st: "stored_cart ?s = Some ?c" by (rule stored_cart_text) simp
  have d: "distinct (map item_id ?c)" by simp
  from remove_iff_present [OF Reviewer_review_accepts st, of 9]
  have 1: "remove Reviewer_review 9 ?s = Return False ?s" by simp
  from remove_iff_present [OF Reviewer_review_accepts st, of 1] d
  have 2: "\<exists>s'. remove Reviewer_review 1 ?s = Return True s'
        \<and> stored_cart s' = Some [\<lparr>item_id = 3, qty = 4\<rparr>]
        \<and> allItems s' = Some [\<lparr>item_id = 3, qty = 4\<rparr>]"
    by auto
  from 1 2 show ?thesis by blast
qed

text \<open>
  C8. With a reviewer that accepts and a stored cart \<open>c\<close>: when an entry has the id,
  \<^verbatim>\<open>changeQuantity(id, q, cb)\<close> returns true and the cart becomes \<open>c\<close> with the quantity of the
  entry at the position \<open>k\<close> of that id replaced by \<open>q\<close>, every other entry and the order
  unchanged; that list is fired, and with the binding of \<^verbatim>\<open>init\<close> in place it is stored and
  held in memory. When no entry has the id, the call returns false and the state, the trace
  included, is untouched: nothing is changed and nothing is fired.
\<close>

theorem changeQuantity_iff_present:
  assumes "\<forall>s. rv s = Accept" and "stored_cart s = Some c"
  shows "(i \<in> item_id ` set c \<longrightarrow>
           (\<exists>k<length c. \<exists>s' evs. item_id (c ! k) = i
              \<and> changeQuantity rv i q cb s = Return True s'
              \<and> trace s' = trace s
                   @ Fired ''modified updated sys-modified'' (Some (c[k := (c ! k)\<lparr>qty := q\<rparr>])) # evs
              \<and> (SysModified \<in> set (eventStack s) \<longrightarrow>
                   stored_cart s' = Some (c[k := (c ! k)\<lparr>qty := q\<rparr>])
                   \<and> allItems s' = Some (c[k := (c ! k)\<lparr>qty := q\<rparr>]))
              \<and> (distinct (map item_id c) \<longrightarrow>
                   c[k := (c ! k)\<lparr>qty := q\<rparr>]
                     = map (\<lambda>x. if item_id x = i then x\<lparr>qty := q\<rparr> else x) c)))
       \<and> (i \<notin> item_id ` set c \<longrightarrow> changeQuantity rv i q cb s = Return False s)"
proof (intro conjI impI)
  assume "i \<in> item_id ` set c"
  from changeQuantity_present [OF assms this, of q cb] obtain k where k: "k < length c"
    "item_id (c ! k) = i"
    "changeQuantity rv i q cb s
          = Return True
             (case cb of
                None \<Rightarrow> fired ''modified updated sys-modified'' (Some (c[k := (c ! k)\<lparr>qty := q\<rparr>])) s
              | Some f \<Rightarrow>
                  (fired ''modified updated sys-modified'' (Some (c[k := (c ! k)\<lparr>qty := q\<rparr>])) s)
                  \<lparr>trace := trace (fired ''modified updated sys-modified''
                                     (Some (c[k := (c ! k)\<lparr>qty := q\<rparr>])) s)
                             @ [Ran f (Some (c[k := (c ! k)\<lparr>qty := q\<rparr>]))]\<rparr>)"
    by blast
  let ?c' = "c[k := (c ! k)\<lparr>qty := q\<rparr>]"
  let ?f = "fired ''modified updated sys-modified'' (Some ?c') s"
  let ?s' = "case cb of None \<Rightarrow> ?f | Some f \<Rightarrow> ?f\<lparr>trace := trace ?f @ [Ran f (Some ?c')]\<rparr>"
  have sys: "''sys-modified'' \<in> set (split_on CHR '' '' ''modified updated sys-modified'')"
    by (simp add: split_updated)
  have "\<exists>evs. trace ?s' = trace s @ Fired ''modified updated sys-modified'' (Some ?c') # evs"
    by (cases cb) (simp_all add: trace_fired)
  moreover have "SysModified \<in> set (eventStack s) \<longrightarrow>
      stored_cart ?s' = Some ?c' \<and> allItems ?s' = Some ?c'"
  proof
    assume b: "SysModified \<in> set (eventStack s)"
    have "stored_cart ?s' = stored_cart ?f" "allItems ?s' = allItems ?f"
      by (cases cb; simp add: stored_cart_def storage_fetch_def split: option.splits)+
    then show "stored_cart ?s' = Some ?c' \<and> allItems ?s' = Some ?c'"
      using fired_sys(1,3) [OF sys b, of ?c'] by simp
  qed
  moreover have "distinct (map item_id c) \<longrightarrow>
      ?c' = map (\<lambda>x. if item_id x = i then x\<lparr>qty := q\<rparr> else x) c"
    using distinct_ids_update [of c k i "\<lambda>x. x\<lparr>qty := q\<rparr>"] k(1,2) by blast
  ultimately show "\<exists>k<length c. \<exists>s' evs. item_id (c ! k) = i
              \<and> changeQuantity rv i q cb s = Return True s'
              \<and> trace s' = trace s
                   @ Fired ''modified updated sys-modified'' (Some (c[k := (c ! k)\<lparr>qty := q\<rparr>])) # evs
              \<and> (SysModified \<in> set (eventStack s) \<longrightarrow>
                   stored_cart s' = Some (c[k := (c ! k)\<lparr>qty := q\<rparr>])
                   \<and> allItems s' = Some (c[k := (c ! k)\<lparr>qty := q\<rparr>]))
              \<and> (distinct (map item_id c) \<longrightarrow>
                   c[k := (c ! k)\<lparr>qty := q\<rparr>]
                     = map (\<lambda>x. if item_id x = i then x\<lparr>qty := q\<rparr> else x) c)"
    using k by blast
next
  assume "i \<notin> item_id ` set c"
  then show "changeQuantity rv i q cb s = Return False s"
    by (rule changeQuantity_absent [OF assms(2)])
qed

theorem changeQuantity_iff_present_witness:
  "changeQuantity Reviewer_review 9 10 (Some 7)
     \<lparr>eventStack = [SysModified], allItems = Some [],
      localStorage = [storage_key \<mapsto> items_text [\<lparr>item_id = 1, qty = 2\<rparr>, \<lparr>item_id = 3, qty = 4\<rparr>]],
      trace = []\<rparr>
   = Return False
     \<lparr>eventStack = [SysModified], allItems = Some [],
      localStorage = [storage_key \<mapsto> items_text [\<lparr>item_id = 1, qty = 2\<rparr>, \<lparr>item_id = 3, qty = 4\<rparr>]],
      trace = []\<rparr>
   \<and> (\<exists>s'. changeQuantity Reviewer_review 1 10 (Some 7)
     \<lparr>eventStack = [SysModified], allItems = Some [],
      localStorage = [storage_key \<mapsto> items_text [\<lparr>item_id = 1, qty = 2\<rparr>, \<lparr>item_id = 3, qty = 4\<rparr>]],
      trace = []\<rparr> = Return True s'
        \<and> stored_cart s' = Some [\<lparr>item_id = 1, qty = 10\<rparr>, \<lparr>item_id = 3, qty = 4\<rparr>]
        \<and> allItems s' = Some [\<lparr>item_id = 1, qty = 10\<rparr>, \<lparr>item_id = 3, qty = 4\<rparr>])"
proof -
  let ?c = "[\<lparr>item_id = 1, qty = 2\<rparr>, \<lparr>item_id = 3, qty = 4\<rparr>]"
  let ?s = "\<lparr>eventStack = [SysModified], allItems = Some [],
      localStorage = [storage_key \<mapsto> items_text ?c], trace = []\<rparr>"
  have st: "stored_cart ?s = Some ?c" by (rule stored_cart_text) simp
  have d: "distinct (map item_id ?c)" by simp
  from changeQuantity_iff_present [OF Reviewer_review_accepts st, of 9 10 "Some 7"]
  have 1: "changeQuantity Reviewer_review 9 10 (Some 7) ?s = Return False ?s" by simp
  from changeQuantity_iff_present [OF Reviewer_review_accepts st, of 1 10 "Some 7"] d
  have 2: "\<exists>s'. changeQuantity Reviewer_review 1 10 (Some 7) ?s = Return True s'
        \<and> stored_cart s' = Some [\<lparr>item_id = 1, qty = 10\<rparr>, \<lparr>item_id = 3, qty = 4\<rparr>]
        \<and> allItems s' = Some [\<lparr>item_id = 1, qty = 10\<rparr>, \<lparr>item_id = 3, qty = 4\<rparr>]"
    by auto
  from 1 2 show ?thesis by blast
qed

section \<open>Adding one item\<close>

lemma split_added_sys:
  "''sys-modified'' \<in> set (split_on CHR '' '' ''modified added sys-modified'')"
  by (simp add: split_added)

lemma addItem_accept:
  assumes acc: "\<forall>s. rv s = Accept" and c: "stored_cart s = Some c"
  shows "addItem rv (Some i) q s
     = Return (add_entry \<lparr>item_id = i, qty = (case q of None \<Rightarrow> 1 | Some n \<Rightarrow> if n = 0 then 1 else n)\<rparr> c)
         (fired ''modified added sys-modified''
            (Some (add_entry \<lparr>item_id = i, qty = (case q of None \<Rightarrow> 1 | Some n \<Rightarrow> if n = 0 then 1 else n)\<rparr> c)) s)"
  by (simp add: addItem_def addItems_accept [OF acc c] Let_def)

lemma add_entry_distinct_present:
  assumes "item_id it \<in> item_id ` set c" "distinct (map item_id c)"
  shows "add_entry it c = map (\<lambda>x. if item_id x = item_id it then x\<lparr>qty := qty x + qty it\<rparr> else x) c"
proof -
  from add_entry_present [OF assms(1)] obtain k where k: "k < length c"
    "item_id (c ! k) = item_id it"
    "add_entry it c = c[k := (c ! k)\<lparr>qty := qty (c ! k) + qty it\<rparr>]" by blast
  from distinct_ids_update [OF assms(2) k(1,2), of "\<lambda>x. x\<lparr>qty := qty x + qty it\<rparr>"] k(3)
  show ?thesis by simp
qed

lemma addItem_facts:
  assumes acc: "\<forall>s. rv s = Accept" and c: "stored_cart s = Some c"
  shows "\<exists>c' s'. addItem rv (Some i) q s = Return c' s'
     \<and> (\<exists>evs. trace s' = trace s @ Fired ''modified added sys-modified'' (Some c') # evs)
     \<and> (SysModified \<in> set (eventStack s) \<longrightarrow> stored_cart s' = Some c' \<and> allItems s' = Some c')
     \<and> eventStack s' = eventStack s
     \<and> c' = add_entry \<lparr>item_id = i, qty = (case q of None \<Rightarrow> 1 | Some n \<Rightarrow> if n = 0 then 1 else n)\<rparr> c"
  using fired_sys(1,3) [OF split_added_sys]
  by (simp add: addItem_accept [OF acc c] trace_fired eventStack_fired)

text \<open>
  C4. With a reviewer that accepts and a stored cart \<open>c\<close>, \<^verbatim>\<open>addItem(i, q)\<close> returns the new
  list \<open>c'\<close>, fires it, and with the binding of \<^verbatim>\<open>init\<close> in place stores it and holds it in
  memory. The quantity used is \<open>q\<close>, or \<open>1\<close> when none is given (or when \<open>0\<close> is, see C10).
  When no entry has the id, \<open>c'\<close> is \<open>c\<close> with the new entry appended; when one has, \<open>c'\<close> is
  \<open>c\<close> with the quantity at the position of that id increased, and nothing is appended. So a
  cart with one entry per id stays one. From an empty cart, \<^verbatim>\<open>addItem(5, 2)\<close> and then
  \<^verbatim>\<open>addItem(5, 3)\<close> leave the single entry \<^verbatim>\<open>{id: 5, qty: 5}\<close>.
\<close>

theorem addItem_appends_or_increments:
  assumes "\<forall>s. rv s = Accept" and "stored_cart s = Some c"
  shows "(\<exists>c' s'. addItem rv (Some i) q s = Return c' s'
     \<and> (\<exists>evs. trace s' = trace s @ Fired ''modified added sys-modified'' (Some c') # evs)
     \<and> (SysModified \<in> set (eventStack s) \<longrightarrow> stored_cart s' = Some c' \<and> allItems s' = Some c')
     \<and> (let n = (case q of None \<Rightarrow> 1 | Some m \<Rightarrow> if m = 0 then 1 else m) in
          (i \<notin> item_id ` set c \<longrightarrow> c' = c @ [\<lparr>item_id = i, qty = n\<rparr>])
        \<and> (i \<in> item_id ` set c \<longrightarrow>
             (\<exists>k<length c. item_id (c ! k) = i \<and> c' = c[k := (c ! k)\<lparr>qty := qty (c ! k) + n\<rparr>]))
        \<and> (i \<in> item_id ` set c \<and> distinct (map item_id c) \<longrightarrow>
             c' = map (\<lambda>x. if item_id x = i then x\<lparr>qty := qty x + n\<rparr> else x) c))
     \<and> (distinct (map item_id c) \<longrightarrow> distinct (map item_id c')))
   \<and> (c = [] \<and> SysModified \<in> set (eventStack s) \<longrightarrow>
        (\<exists>s1 s2. addItem rv (Some 5) (Some 2) s = Return [\<lparr>item_id = 5, qty = 2\<rparr>] s1
           \<and> addItem rv (Some 5) (Some 3) s1 = Return [\<lparr>item_id = 5, qty = 5\<rparr>] s2
           \<and> stored_cart s2 = Some [\<lparr>item_id = 5, qty = 5\<rparr>]))"
proof (intro conjI impI)
  let ?n = "case q of None \<Rightarrow> 1 | Some m \<Rightarrow> if m = 0 then 1 else m"
  let ?it = "\<lparr>item_id = i, qty = ?n\<rparr>"
  from addItem_facts [OF assms, of i q] obtain c' s' where r:
    "addItem rv (Some i) q s = Return c' s'"
    "\<exists>evs. trace s' = trace s @ Fired ''modified added sys-modified'' (Some c') # evs"
    "SysModified \<in> set (eventStack s) \<longrightarrow> stored_cart s' = Some c' \<and> allItems s' = Some c'"
    "c' = add_entry ?it c" by blast
  have a: "i \<notin> item_id ` set c \<longrightarrow> c' = c @ [?it]"
    using add_entry_absent [of ?it c] r(4) by simp
  have b: "i \<in> item_id ` set c \<longrightarrow>
      (\<exists>k<length c. item_id (c ! k) = i \<and> c' = c[k := (c ! k)\<lparr>qty := qty (c ! k) + ?n\<rparr>])"
    using add_entry_present [of ?it c] r(4) by auto
  have d: "i \<in> item_id ` set c \<and> distinct (map item_id c) \<longrightarrow>
      c' = map (\<lambda>x. if item_id x = i then x\<lparr>qty := qty x + ?n\<rparr> else x) c"
    using add_entry_distinct_present [of ?it c] r(4) by simp
  have e: "distinct (map item_id c) \<longrightarrow> distinct (map item_id c')"
    using distinct_add_entry [of c ?it] r(4) by simp
  from r(1-3) a b d e
  show "\<exists>c' s'. addItem rv (Some i) q s = Return c' s'
     \<and> (\<exists>evs. trace s' = trace s @ Fired ''modified added sys-modified'' (Some c') # evs)
     \<and> (SysModified \<in> set (eventStack s) \<longrightarrow> stored_cart s' = Some c' \<and> allItems s' = Some c')
     \<and> (let n = (case q of None \<Rightarrow> 1 | Some m \<Rightarrow> if m = 0 then 1 else m) in
          (i \<notin> item_id ` set c \<longrightarrow> c' = c @ [\<lparr>item_id = i, qty = n\<rparr>])
        \<and> (i \<in> item_id ` set c \<longrightarrow>
             (\<exists>k<length c. item_id (c ! k) = i \<and> c' = c[k := (c ! k)\<lparr>qty := qty (c ! k) + n\<rparr>]))
        \<and> (i \<in> item_id ` set c \<and> distinct (map item_id c) \<longrightarrow>
             c' = map (\<lambda>x. if item_id x = i then x\<lparr>qty := qty x + n\<rparr> else x) c))
     \<and> (distinct (map item_id c) \<longrightarrow> distinct (map item_id c'))"
    unfolding Let_def by blast
next
  assume h: "c = [] \<and> SysModified \<in> set (eventStack s)"
  from addItem_facts [OF assms, of 5 "Some 2"] h obtain s1 where 1:
    "addItem rv (Some 5) (Some 2) s = Return [\<lparr>item_id = 5, qty = 2\<rparr>] s1"
    "stored_cart s1 = Some [\<lparr>item_id = 5, qty = 2\<rparr>]" "eventStack s1 = eventStack s"
    by (auto simp: add_entry_absent)
  have "add_entry \<lparr>item_id = 5, qty = 3\<rparr> [\<lparr>item_id = 5, qty = 2\<rparr>] = [\<lparr>item_id = 5, qty = 5\<rparr>]"
    using add_entry_distinct_present [of "\<lparr>item_id = 5, qty = 3\<rparr>" "[\<lparr>item_id = 5, qty = 2\<rparr>]"]
    by simp
  with addItem_facts [OF assms(1) 1(2), of 5 "Some 3"] h 1(3) obtain s2 where 2:
    "addItem rv (Some 5) (Some 3) s1 = Return [\<lparr>item_id = 5, qty = 5\<rparr>] s2"
    "stored_cart s2 = Some [\<lparr>item_id = 5, qty = 5\<rparr>]"
    by auto
  from 1 2 show "\<exists>s1 s2. addItem rv (Some 5) (Some 2) s = Return [\<lparr>item_id = 5, qty = 2\<rparr>] s1
           \<and> addItem rv (Some 5) (Some 3) s1 = Return [\<lparr>item_id = 5, qty = 5\<rparr>] s2
           \<and> stored_cart s2 = Some [\<lparr>item_id = 5, qty = 5\<rparr>]" by blast
qed


lemma stored_cart_absent: "localStorage s storage_key = None \<Longrightarrow> stored_cart s = Some []"
  by (simp add: stored_cart_def storage_fetch_def)

theorem addItem_appends_or_increments_witness:
  "\<exists>s1 s2. addItem Reviewer_review (Some 5) (Some 2)
       \<lparr>eventStack = [SysModified], allItems = Some [], localStorage = Map.empty,
        trace = [Fired ''initialized'' None]\<rparr>
       = Return [\<lparr>item_id = 5, qty = 2\<rparr>] s1
     \<and> addItem Reviewer_review (Some 5) (Some 3) s1 = Return [\<lparr>item_id = 5, qty = 5\<rparr>] s2
     \<and> stored_cart s2 = Some [\<lparr>item_id = 5, qty = 5\<rparr>]"
proof -
  let ?s = "\<lparr>eventStack = [SysModified], allItems = Some [], localStorage = Map.empty,
        trace = [Fired ''initialized'' None]\<rparr>"
  have st: "stored_cart ?s = Some []" by (rule stored_cart_absent) simp
  from addItem_appends_or_increments [OF Reviewer_review_accepts st, of 5 "Some 2"]
  show ?thesis by simp
qed

text \<open>
  C10. \<^verbatim>\<open>qty || 1\<close> replaces every falsy quantity: \<^verbatim>\<open>addItem(id, 0)\<close> and \<^verbatim>\<open>addItem(id)\<close> are
  the call \<^verbatim>\<open>addItem(id, 1)\<close>, whatever the id and the state. With a reviewer that accepts and
  a stored cart \<open>c\<close>, an explicit quantity of \<open>0\<close> therefore appends an entry of quantity \<open>1\<close>
  for a new id and adds \<open>1\<close> to the entry of an id already there.
\<close>

theorem addItem_falsy_qty:
  assumes "\<forall>s. rv s = Accept" and "stored_cart s = Some c"
  shows "addItem rv ident (Some 0) s = addItem rv ident (Some 1) s
     \<and> addItem rv ident None s = addItem rv ident (Some 1) s
     \<and> (i \<notin> item_id ` set c \<longrightarrow>
          (\<exists>s'. addItem rv (Some i) (Some 0) s = Return (c @ [\<lparr>item_id = i, qty = 1\<rparr>]) s'))
     \<and> (i \<in> item_id ` set c \<and> distinct (map item_id c) \<longrightarrow>
          (\<exists>s'. addItem rv (Some i) (Some 0) s
             = Return (map (\<lambda>x. if item_id x = i then x\<lparr>qty := qty x + 1\<rparr> else x) c) s'))"
proof (intro conjI impI)
  show "addItem rv ident (Some 0) s = addItem rv ident (Some 1) s"
    by (simp add: addItem_def)
  show "addItem rv ident None s = addItem rv ident (Some 1) s"
    by (simp add: addItem_def)
next
  assume "i \<notin> item_id ` set c"
  then show "\<exists>s'. addItem rv (Some i) (Some 0) s = Return (c @ [\<lparr>item_id = i, qty = 1\<rparr>]) s'"
    using addItem_facts [OF assms, of i "Some 0"] by (auto simp: add_entry_absent)
next
  assume "i \<in> item_id ` set c \<and> distinct (map item_id c)"
  then show "\<exists>s'. addItem rv (Some i) (Some 0) s
             = Return (map (\<lambda>x. if item_id x = i then x\<lparr>qty := qty x + 1\<rparr> else x) c) s'"
    using addItem_facts [OF assms, of i "Some 0"]
      add_entry_distinct_present [of "\<lparr>item_id = i, qty = 1\<rparr>" c]
    by auto
qed

theorem addItem_falsy_qty_witness:
  "(\<exists>s'. addItem Reviewer_review (Some 7) (Some 0)
       \<lparr>eventStack = [SysModified], allItems = Some [], localStorage = Map.empty,
        trace = [Fired ''initialized'' None]\<rparr>
       = Return [\<lparr>item_id = 7, qty = 1\<rparr>] s')
   \<and> (\<exists>s'. addItem Reviewer_review (Some 7) (Some 0)
       \<lparr>eventStack = [SysModified], allItems = Some [],
        localStorage = [storage_key \<mapsto> items_text [\<lparr>item_id = 7, qty = 4\<rparr>]],
        trace = [Fired ''initialized'' None]\<rparr>
       = Return [\<lparr>item_id = 7, qty = 5\<rparr>] s')"
proof -
  let ?s = "\<lparr>eventStack = [SysModified], allItems = Some [], localStorage = Map.empty,
        trace = [Fired ''initialized'' None]\<rparr>"
  let ?t = "\<lparr>eventStack = [SysModified], allItems = Some [],
        localStorage = [storage_key \<mapsto> items_text [\<lparr>item_id = 7, qty = 4\<rparr>]],
        trace = [Fired ''initialized'' None]\<rparr>"
  have st: "stored_cart ?s = Some []" by (rule stored_cart_absent) simp
  have tt: "stored_cart ?t = Some [\<lparr>item_id = 7, qty = 4\<rparr>]" by (rule stored_cart_text) simp
  have "7 \<notin> item_id ` set ([] :: item list)" by simp
  with addItem_falsy_qty [OF Reviewer_review_accepts st, of "Some 7" 7]
  have 1: "\<exists>s'. addItem Reviewer_review (Some 7) (Some 0) ?s = Return [\<lparr>item_id = 7, qty = 1\<rparr>] s'"
    by (metis append_Nil)
  have "7 \<in> item_id ` set [\<lparr>item_id = 7, qty = 4\<rparr>] \<and> distinct (map item_id [\<lparr>item_id = 7, qty = 4\<rparr>])"
    "map (\<lambda>x. if item_id x = 7 then x\<lparr>qty := qty x + 1\<rparr> else x) [\<lparr>item_id = 7, qty = 4\<rparr>]
       = [\<lparr>item_id = 7, qty = 5\<rparr>]"
    by simp_all
  with addItem_falsy_qty [OF Reviewer_review_accepts tt, of "Some 7" 7]
  have 2: "\<exists>s'. addItem Reviewer_review (Some 7) (Some 0) ?t = Return [\<lparr>item_id = 7, qty = 5\<rparr>] s'"
    by metis
  from 1 2 show ?thesis by blast
qed

section \<open>Adding a batch\<close>

lemma filter_Fired_runs: "filter (\<lambda>e. \<exists>d. e = Fired ty d) (runs tys x es) = []"
  by (induction tys x es rule: runs.induct) simp_all

lemma filter_Broadcast_runs: "filter (\<lambda>e. \<exists>d. e = Broadcast d) (runs tys x es) = []"
  by (induction tys x es rule: runs.induct) simp_all

lemma filter_Fired_fire_effects:
  "ty \<noteq> ''persisted'' \<Longrightarrow> filter (\<lambda>e. \<exists>d. e = Fired ty d) (fire_effects tys x stack es) = []"
  by (induction tys x stack es rule: fire_effects.induct) (simp_all add: filter_Fired_runs)

lemma filter_Broadcast_fire_effects:
  "''sys-modified'' \<in> set tys \<Longrightarrow>
   filter (\<lambda>e. \<exists>d. e = Broadcast d) (fire_effects tys x stack es)
     = replicate (count_list es SysModified) (Broadcast x)"
  by (induction tys x stack es rule: fire_effects.induct) (simp_all add: filter_Broadcast_runs)

lemma concat_map_singleton: "concat (map (\<lambda>x. [f x]) xs) = map f xs"
  by (induction xs) simp_all

text \<open>
  C5. With a reviewer that accepts and a stored cart \<open>c\<close>, \<^verbatim>\<open>addItems\<close> on \<open>n\<close> entries
  fires \<^verbatim>\<open>'modified added sys-modified'\<close> exactly \<open>n\<close> times: the fires it adds to the trace
  are, in order, those of the \<open>n\<close> lists \<open>snapshots c entries\<close>, the \<open>k\<close>-th of which is the
  cart after the first \<open>k\<close> entries have been added. With the one binding of \<^verbatim>\<open>init\<close> in place
  its handler receives (and broadcasts) exactly these lists; what is stored and held in memory
  at the end is the last of them, and that list is what \<^verbatim>\<open>addItems\<close> returns.
\<close>

theorem addItems_fires_per_entry:
  assumes "\<forall>s. rv s = Accept" and "stored_cart s = Some c"
  shows "\<exists>s' new. addItems rv (Array entries) s
           = Return (foldl (\<lambda>c it. add_entry it c) c entries) s'
      \<and> trace s' = trace s @ new
      \<and> filter (\<lambda>e. \<exists>d. e = Fired ''modified added sys-modified'' d) new
          = map (\<lambda>snap. Fired ''modified added sys-modified'' (Some snap)) (snapshots c entries)
      \<and> length (snapshots c entries) = length entries
      \<and> (\<forall>k<length entries.
            snapshots c entries ! k = foldl (\<lambda>c it. add_entry it c) c (take (Suc k) entries))
      \<and> (count_list (eventStack s) SysModified = 1 \<longrightarrow>
            filter (\<lambda>e. \<exists>d. e = Broadcast d) new
              = map (\<lambda>snap. Broadcast (Some snap)) (snapshots c entries))
      \<and> (SysModified \<in> set (eventStack s) \<and> entries \<noteq> [] \<longrightarrow>
            stored_cart s' = Some (last (snapshots c entries))
            \<and> allItems s' = Some (last (snapshots c entries))
            \<and> last (snapshots c entries) = foldl (\<lambda>c it. add_entry it c) c entries)"
proof -
  let ?ty = "''modified added sys-modified''"
  let ?tys = "split_on CHR '' '' ?ty"
  let ?snaps = "snapshots c entries"
  let ?s' = "foldl (\<lambda>s snap. fired ?ty (Some snap) s) s ?snaps"
  let ?new = "concat (map (\<lambda>snap. Fired ?ty (Some snap)
          # fire_effects ?tys (Some snap) (eventStack s) (eventStack s)) ?snaps)"
  have ret: "addItems rv (Array entries) s = Return (foldl (\<lambda>c it. add_entry it c) c entries) ?s'"
    using addItems_accept [OF assms, of entries] by (simp only: last_snapshots)
  have tr: "trace ?s' = trace s @ ?new" by (rule trace_foldl_fired)
  have ne: "?ty \<noteq> ''persisted''" by simp
  have f: "filter (\<lambda>e. \<exists>d. e = Fired ?ty d) ?new = map (\<lambda>snap. Fired ?ty (Some snap)) ?snaps"
    by (simp add: filter_concat comp_def filter_Fired_fire_effects [OF ne] concat_map_singleton
        del: split_on.simps)
  have b: "count_list (eventStack s) SysModified = 1 \<longrightarrow>
      filter (\<lambda>e. \<exists>d. e = Broadcast d) ?new = map (\<lambda>snap. Broadcast (Some snap)) ?snaps"
    by (simp add: filter_concat comp_def filter_Broadcast_fire_effects [OF split_added_sys]
        concat_map_singleton del: split_on.simps)
  have n: "\<forall>k<length entries. ?snaps ! k = foldl (\<lambda>c it. add_entry it c) c (take (Suc k) entries)"
    by (simp add: snapshots_nth)
  have p: "SysModified \<in> set (eventStack s) \<and> entries \<noteq> [] \<longrightarrow>
      stored_cart ?s' = Some (last ?snaps) \<and> allItems ?s' = Some (last ?snaps)
      \<and> last ?snaps = foldl (\<lambda>c it. add_entry it c) c entries"
  proof
    assume h: "SysModified \<in> set (eventStack s) \<and> entries \<noteq> []"
    then have nn: "?snaps \<noteq> []" using length_snapshots [of c entries] by auto
    from foldl_fired_sys [OF split_added_sys _ nn] h
    have "allItems ?s' = Some (last ?snaps)" "stored_cart ?s' = Some (last ?snaps)" by blast+
    moreover have "last ?snaps = foldl (\<lambda>c it. add_entry it c) c entries"
      using last_snapshots [of c entries] nn by simp
    ultimately show "stored_cart ?s' = Some (last ?snaps) \<and> allItems ?s' = Some (last ?snaps)
      \<and> last ?snaps = foldl (\<lambda>c it. add_entry it c) c entries" by blast
  qed
  from ret tr f b n p length_snapshots [of c entries] show ?thesis by blast
qed


lemma snapshots_example:
  "snapshots [] [\<lparr>item_id = 1, qty = 100\<rparr>, \<lparr>item_id = 2, qty = 100\<rparr>, \<lparr>item_id = 1, qty = 5\<rparr>]
     = [[\<lparr>item_id = 1, qty = 100\<rparr>],
        [\<lparr>item_id = 1, qty = 100\<rparr>, \<lparr>item_id = 2, qty = 100\<rparr>],
        [\<lparr>item_id = 1, qty = 105\<rparr>, \<lparr>item_id = 2, qty = 100\<rparr>]]"
  by (simp add: add_entry_def put_entry_def find_by_id_def)

theorem addItems_fires_per_entry_witness:
  "\<exists>s' new. addItems Reviewer_review
        (Array [\<lparr>item_id = 1, qty = 100\<rparr>, \<lparr>item_id = 2, qty = 100\<rparr>, \<lparr>item_id = 1, qty = 5\<rparr>])
        \<lparr>eventStack = [SysModified, Bound ''modified'' 1], allItems = Some [],
         localStorage = Map.empty, trace = [Fired ''initialized'' None]\<rparr>
      = Return [\<lparr>item_id = 1, qty = 105\<rparr>, \<lparr>item_id = 2, qty = 100\<rparr>] s'
    \<and> trace s' = [Fired ''initialized'' None] @ new
    \<and> filter (\<lambda>e. \<exists>d. e = Fired ''modified added sys-modified'' d) new
        = [Fired ''modified added sys-modified'' (Some [\<lparr>item_id = 1, qty = 100\<rparr>]),
           Fired ''modified added sys-modified''
             (Some [\<lparr>item_id = 1, qty = 100\<rparr>, \<lparr>item_id = 2, qty = 100\<rparr>]),
           Fired ''modified added sys-modified''
             (Some [\<lparr>item_id = 1, qty = 105\<rparr>, \<lparr>item_id = 2, qty = 100\<rparr>])]
    \<and> filter (\<lambda>e. \<exists>d. e = Broadcast d) new
        = [Broadcast (Some [\<lparr>item_id = 1, qty = 100\<rparr>]),
           Broadcast (Some [\<lparr>item_id = 1, qty = 100\<rparr>, \<lparr>item_id = 2, qty = 100\<rparr>]),
           Broadcast (Some [\<lparr>item_id = 1, qty = 105\<rparr>, \<lparr>item_id = 2, qty = 100\<rparr>])]
    \<and> stored_cart s' = Some [\<lparr>item_id = 1, qty = 105\<rparr>, \<lparr>item_id = 2, qty = 100\<rparr>]
    \<and> allItems s' = Some [\<lparr>item_id = 1, qty = 105\<rparr>, \<lparr>item_id = 2, qty = 100\<rparr>]"
proof -
  let ?s = "\<lparr>eventStack = [SysModified, Bound ''modified'' 1], allItems = Some [],
         localStorage = Map.empty, trace = [Fired ''initialized'' None]\<rparr>"
  let ?entries = "[\<lparr>item_id = 1, qty = 100\<rparr>, \<lparr>item_id = 2, qty = 100\<rparr>, \<lparr>item_id = 1, qty = 5\<rparr>]"
  have st: "stored_cart ?s = Some []" by (rule stored_cart_absent) simp
  have fin: "foldl (\<lambda>c it. add_entry it c) [] ?entries
      = [\<lparr>item_id = 1, qty = 105\<rparr>, \<lparr>item_id = 2, qty = 100\<rparr>]"
    by (simp add: add_entry_def put_entry_def find_by_id_def)
  from addItems_fires_per_entry [OF Reviewer_review_accepts st, of ?entries]
  obtain s' new where r:
    "addItems Reviewer_review (Array ?entries) ?s
       = Return (foldl (\<lambda>c it. add_entry it c) [] ?entries) s'"
    "trace s' = trace ?s @ new"
    "filter (\<lambda>e. \<exists>d. e = Fired ''modified added sys-modified'' d) new
          = map (\<lambda>snap. Fired ''modified added sys-modified'' (Some snap)) (snapshots [] ?entries)"
    "count_list (eventStack ?s) SysModified = 1 \<longrightarrow>
            filter (\<lambda>e. \<exists>d. e = Broadcast d) new
              = map (\<lambda>snap. Broadcast (Some snap)) (snapshots [] ?entries)"
    "SysModified \<in> set (eventStack ?s) \<and> ?entries \<noteq> [] \<longrightarrow>
            stored_cart s' = Some (last (snapshots [] ?entries))
            \<and> allItems s' = Some (last (snapshots [] ?entries))"
    by blast
  from r(1) fin have 1: "addItems Reviewer_review (Array ?entries) ?s
       = Return [\<lparr>item_id = 1, qty = 105\<rparr>, \<lparr>item_id = 2, qty = 100\<rparr>] s'" by simp
  from r(2) have 2: "trace s' = [Fired ''initialized'' None] @ new" by simp
  note 3 = r(3) [unfolded snapshots_example]
  from r(4) have 4: "filter (\<lambda>e. \<exists>d. e = Broadcast d) new
              = map (\<lambda>snap. Broadcast (Some snap)) (snapshots [] ?entries)" by simp
  note 4 = 4 [unfolded snapshots_example]
  from r(5) have 5: "stored_cart s' = Some (last (snapshots [] ?entries))
            \<and> allItems s' = Some (last (snapshots [] ?entries))" by simp
  note 5 = 5 [unfolded snapshots_example]
  from 1 2 3 4 5 show ?thesis
    by (intro exI [of _ s'] exI [of _ new]) simp
qed

section \<open>What \<^verbatim>\<open>getCart\<close> returns\<close>

lemma split_initialized: "split_on CHR '' '' ''initialized'' = [''initialized'']"
  by simp

lemma init_state:
  "init rv ls = Return ()
     \<lparr>eventStack = [SysModified], allItems = Some [], localStorage = ls,
      trace = [Fired ''initialized'' None]\<rparr>"
  by (simp add: init_def fireCustomEvent_plain split_initialized)

lemma getCart_None: "getCart None s = storage_fetch s"
  by (cases "storage_fetch s") (simp_all add: getCart_def bind_result_def)

lemma getCart_text:
  "localStorage s storage_key = Some (items_text xs) \<Longrightarrow> getCart None s = Return (json_of_items xs) s"
proof -
  assume a: "localStorage s storage_key = Some (items_text xs)"
  have "items_text xs \<noteq> []" by (simp add: items_text_def)
  with a show ?thesis by (simp add: getCart_None storage_fetch_def JSON_parse_items_text)
qed

text \<open>
  C6, as the claim states it, fails: \<^verbatim>\<open>getCart\<close> never looks at \<^verbatim>\<open>storage.allItems\<close>. Right
  after \<^verbatim>\<open>init\<close> on a browser that holds a stored cart, the in-memory list is empty and every
  \<^verbatim>\<open>getCart\<close> returns the stored item. And after an \<^verbatim>\<open>addItem\<close> whose review is rejected, the
  in-memory list holds the new item, nothing was stored, and \<^verbatim>\<open>getCart\<close> returns the empty
  list of the store.
\<close>

theorem getCart_ignores_memory:
  "init Reviewer_review [storage_key \<mapsto> items_text [\<lparr>item_id = 1, qty = 1\<rparr>]]
     = Return ()
         \<lparr>eventStack = [SysModified], allItems = Some [],
          localStorage = [storage_key \<mapsto> items_text [\<lparr>item_id = 1, qty = 1\<rparr>]],
          trace = [Fired ''initialized'' None]\<rparr>
   \<and> getCart None
         \<lparr>eventStack = [SysModified], allItems = Some [],
          localStorage = [storage_key \<mapsto> items_text [\<lparr>item_id = 1, qty = 1\<rparr>]],
          trace = [Fired ''initialized'' None]\<rparr>
     = Return (json_of_items [\<lparr>item_id = 1, qty = 1\<rparr>])
         \<lparr>eventStack = [SysModified], allItems = Some [],
          localStorage = [storage_key \<mapsto> items_text [\<lparr>item_id = 1, qty = 1\<rparr>]],
          trace = [Fired ''initialized'' None]\<rparr>
   \<and> json_of_items [\<lparr>item_id = 1, qty = 1\<rparr>] \<noteq> json_of_items []
   \<and> addItem (\<lambda>s. Reject ''no'') (Some 1) (Some 1)
         \<lparr>eventStack = [SysModified], allItems = Some [], localStorage = Map.empty,
          trace = [Fired ''initialized'' None]\<rparr>
     = Throw (Rejection ''no'')
         \<lparr>eventStack = [SysModified], allItems = Some [\<lparr>item_id = 1, qty = 1\<rparr>],
          localStorage = Map.empty,
          trace = [Fired ''initialized'' None,
                   Fired ''modified added sys-modified'' (Some [\<lparr>item_id = 1, qty = 1\<rparr>]),
                   Broadcast (Some [\<lparr>item_id = 1, qty = 1\<rparr>])]\<rparr>
   \<and> getCart None
         \<lparr>eventStack = [SysModified], allItems = Some [\<lparr>item_id = 1, qty = 1\<rparr>],
          localStorage = Map.empty,
          trace = [Fired ''initialized'' None,
                   Fired ''modified added sys-modified'' (Some [\<lparr>item_id = 1, qty = 1\<rparr>]),
                   Broadcast (Some [\<lparr>item_id = 1, qty = 1\<rparr>])]\<rparr>
     = Return (json_of_items [])
         \<lparr>eventStack = [SysModified], allItems = Some [\<lparr>item_id = 1, qty = 1\<rparr>],
          localStorage = Map.empty,
          trace = [Fired ''initialized'' None,
                   Fired ''modified added sys-modified'' (Some [\<lparr>item_id = 1, qty = 1\<rparr>]),
                   Broadcast (Some [\<lparr>item_id = 1, qty = 1\<rparr>])]\<rparr>"
proof (intro conjI)
  show "init Reviewer_review [storage_key \<mapsto> items_text [\<lparr>item_id = 1, qty = 1\<rparr>]]
     = Return ()
         \<lparr>eventStack = [SysModified], allItems = Some [],
          localStorage = [storage_key \<mapsto> items_text [\<lparr>item_id = 1, qty = 1\<rparr>]],
          trace = [Fired ''initialized'' None]\<rparr>"
    by (rule init_state)
  show "getCart None
         \<lparr>eventStack = [SysModified], allItems = Some [],
          localStorage = [storage_key \<mapsto> items_text [\<lparr>item_id = 1, qty = 1\<rparr>]],
          trace = [Fired ''initialized'' None]\<rparr>
     = Return (json_of_items [\<lparr>item_id = 1, qty = 1\<rparr>])
         \<lparr>eventStack = [SysModified], allItems = Some [],
          localStorage = [storage_key \<mapsto> items_text [\<lparr>item_id = 1, qty = 1\<rparr>]],
          trace = [Fired ''initialized'' None]\<rparr>"
    by (rule getCart_text) simp
  show "json_of_items [\<lparr>item_id = 1, qty = 1\<rparr>] \<noteq> json_of_items []"
    by (simp add: json_of_items_def)
  show "addItem (\<lambda>s. Reject ''no'') (Some 1) (Some 1)
         \<lparr>eventStack = [SysModified], allItems = Some [], localStorage = Map.empty,
          trace = [Fired ''initialized'' None]\<rparr>
     = Throw (Rejection ''no'')
         \<lparr>eventStack = [SysModified], allItems = Some [\<lparr>item_id = 1, qty = 1\<rparr>],
          localStorage = Map.empty,
          trace = [Fired ''initialized'' None,
                   Fired ''modified added sys-modified'' (Some [\<lparr>item_id = 1, qty = 1\<rparr>]),
                   Broadcast (Some [\<lparr>item_id = 1, qty = 1\<rparr>])]\<rparr>"
    by (simp add: addItem_def addItems_def getCart_None storage_fetch_def bind_result_def
        cart_items_def getById_def find_by_id_def put_entry_def fireCustomEvent.simps
        fire_loop.simps sys_modified_handler.simps save.simps refresh_def split_added Let_def)
  show "getCart None
         \<lparr>eventStack = [SysModified], allItems = Some [\<lparr>item_id = 1, qty = 1\<rparr>],
          localStorage = Map.empty,
          trace = [Fired ''initialized'' None,
                   Fired ''modified added sys-modified'' (Some [\<lparr>item_id = 1, qty = 1\<rparr>]),
                   Broadcast (Some [\<lparr>item_id = 1, qty = 1\<rparr>])]\<rparr>
     = Return (json_of_items [])
         \<lparr>eventStack = [SysModified], allItems = Some [\<lparr>item_id = 1, qty = 1\<rparr>],
          localStorage = Map.empty,
          trace = [Fired ''initialized'' None,
                   Fired ''modified added sys-modified'' (Some [\<lparr>item_id = 1, qty = 1\<rparr>]),
                   Broadcast (Some [\<lparr>item_id = 1, qty = 1\<rparr>])]\<rparr>"
    by (simp add: getCart_None storage_fetch_def json_of_items_def)
qed

text \<open>
  C6, amended. Every \<^verbatim>\<open>getCart\<close> is a fresh read of the store and changes nothing: it
  returns what \<^verbatim>\<open>storage.fetch\<close> returns, the same whatever the in-memory list is; the empty
  list when the record is absent or the empty string, and the items whose text is stored
  otherwise; a callback is handed the value returned. After a fire that reaches the handler of
  \<^verbatim>\<open>init\<close> with an accepted review, the in-memory list and the store hold the same items, so
  there \<^verbatim>\<open>getCart\<close> returns the in-memory list as well.
\<close>

theorem getCart_reads_store:
  "(\<forall>v s'. getCart None s = Return v s' \<longrightarrow> s' = s \<and> storage_fetch s = Return v s)
   \<and> getCart None (s\<lparr>allItems := a\<rparr>)
       = (case getCart None s of
            Return v t \<Rightarrow> Return v (t\<lparr>allItems := a\<rparr>)
          | Throw e t \<Rightarrow> Throw e (t\<lparr>allItems := a\<rparr>))
   \<and> (localStorage s storage_key = None \<or> localStorage s storage_key = Some []
        \<longrightarrow> getCart None s = Return (json_of_items []) s)
   \<and> (\<forall>xs. localStorage s storage_key = Some (items_text xs)
        \<longrightarrow> getCart None s = Return (json_of_items xs) s)
   \<and> (\<forall>k v. getCart None s = Return v s
        \<longrightarrow> getCart (Some k) s = Return v (s\<lparr>trace := trace s @ [GotCart k v]\<rparr>))
   \<and> (\<forall>rv ty xs. (\<forall>t. rv t = Accept) \<and> ''sys-modified'' \<in> set (split_on CHR '' '' ty)
          \<and> SysModified \<in> set (eventStack s)
        \<longrightarrow> (\<exists>s'. fireCustomEvent rv ty (Some xs) s = Return () s'
               \<and> allItems s' = Some xs
               \<and> getCart None s' = Return (json_of_items xs) s'))"
proof -
  have 1: "\<forall>v s'. getCart None s = Return v s' \<longrightarrow> s' = s \<and> storage_fetch s = Return v s"
    using storage_fetch_state [of s] by (auto simp: getCart_None)
  have 2: "getCart None (s\<lparr>allItems := a\<rparr>)
       = (case getCart None s of
            Return v t \<Rightarrow> Return v (t\<lparr>allItems := a\<rparr>)
          | Throw e t \<Rightarrow> Throw e (t\<lparr>allItems := a\<rparr>))"
    by (simp add: getCart_None storage_fetch_def split: option.splits)
  have 3: "localStorage s storage_key = None \<or> localStorage s storage_key = Some []
        \<longrightarrow> getCart None s = Return (json_of_items []) s"
    by (auto simp: getCart_None storage_fetch_def json_of_items_def)
  have 4: "\<forall>xs. localStorage s storage_key = Some (items_text xs)
        \<longrightarrow> getCart None s = Return (json_of_items xs) s"
    by (simp add: getCart_text)
  have 5: "\<forall>k v. getCart None s = Return v s
        \<longrightarrow> getCart (Some k) s = Return v (s\<lparr>trace := trace s @ [GotCart k v]\<rparr>)"
  proof (intro allI impI)
    fix k v assume "getCart None s = Return v s"
    then have "storage_fetch s = Return v s" by (simp add: getCart_None)
    then show "getCart (Some k) s = Return v (s\<lparr>trace := trace s @ [GotCart k v]\<rparr>)"
      by (simp add: getCart_def bind_result_def)
  qed
  have 6: "\<forall>rv ty xs. (\<forall>t. rv t = Accept) \<and> ''sys-modified'' \<in> set (split_on CHR '' '' ty)
          \<and> SysModified \<in> set (eventStack s)
        \<longrightarrow> (\<exists>s'. fireCustomEvent rv ty (Some xs) s = Return () s'
               \<and> allItems s' = Some xs
               \<and> getCart None s' = Return (json_of_items xs) s')"
  proof (intro allI impI)
    fix rv :: reviewer and ty xs
    assume h: "(\<forall>t. rv t = Accept) \<and> ''sys-modified'' \<in> set (split_on CHR '' '' ty)
          \<and> SysModified \<in> set (eventStack s)"
    then have f: "fireCustomEvent rv ty (Some xs) s = Return () (fired ty (Some xs) s)"
      by (simp add: fireCustomEvent_fired)
    from h have "allItems (fired ty (Some xs) s) = Some xs"
      "localStorage (fired ty (Some xs) s) = (localStorage s)(storage_key \<mapsto> items_text xs)"
      using fired_sys(1,2) by blast+
    then have "allItems (fired ty (Some xs) s) = Some xs"
      "getCart None (fired ty (Some xs) s) = Return (json_of_items xs) (fired ty (Some xs) s)"
      by (simp_all add: getCart_text)
    with f show "\<exists>s'. fireCustomEvent rv ty (Some xs) s = Return () s'
               \<and> allItems s' = Some xs
               \<and> getCart None s' = Return (json_of_items xs) s'" by blast
  qed
  from 1 2 3 4 5 6 show ?thesis by (intro conjI)
qed

theorem getCart_reads_store_witness:
  "getCart None
     \<lparr>eventStack = [SysModified], allItems = Some [\<lparr>item_id = 1, qty = 1\<rparr>],
      localStorage = Map.empty, trace = []\<rparr>
   = Return (json_of_items [])
     \<lparr>eventStack = [SysModified], allItems = Some [\<lparr>item_id = 1, qty = 1\<rparr>],
      localStorage = Map.empty, trace = []\<rparr>
   \<and> getCart None
     \<lparr>eventStack = [SysModified], allItems = Some [],
      localStorage = [storage_key \<mapsto> items_text [\<lparr>item_id = 1, qty = 1\<rparr>]], trace = []\<rparr>
   = Return (json_of_items [\<lparr>item_id = 1, qty = 1\<rparr>])
     \<lparr>eventStack = [SysModified], allItems = Some [],
      localStorage = [storage_key \<mapsto> items_text [\<lparr>item_id = 1, qty = 1\<rparr>]], trace = []\<rparr>
   \<and> (\<exists>s'. fireCustomEvent Reviewer_review ''modified added sys-modified''
          (Some [\<lparr>item_id = 2, qty = 3\<rparr>])
          \<lparr>eventStack = [SysModified], allItems = Some [\<lparr>item_id = 1, qty = 1\<rparr>],
           localStorage = Map.empty, trace = []\<rparr> = Return () s'
        \<and> allItems s' = Some [\<lparr>item_id = 2, qty = 3\<rparr>]
        \<and> getCart None s' = Return (json_of_items [\<lparr>item_id = 2, qty = 3\<rparr>]) s')"
proof -
  let ?s = "\<lparr>eventStack = [SysModified], allItems = Some [\<lparr>item_id = 1, qty = 1\<rparr>],
      localStorage = Map.empty, trace = []\<rparr>"
  let ?t = "\<lparr>eventStack = [SysModified], allItems = Some [],
      localStorage = [storage_key \<mapsto> items_text [\<lparr>item_id = 1, qty = 1\<rparr>]], trace = []\<rparr>"
  from getCart_reads_store [of ?s, THEN conjunct2, THEN conjunct2, THEN conjunct1]
  have 1: "getCart None ?s = Return (json_of_items []) ?s"
    by simp
  from getCart_reads_store [of ?t, THEN conjunct2, THEN conjunct2, THEN conjunct2,
      THEN conjunct1, rule_format, of "[\<lparr>item_id = 1, qty = 1\<rparr>]"]
  have 2: "getCart None ?t = Return (json_of_items [\<lparr>item_id = 1, qty = 1\<rparr>]) ?t"
    by simp
  have "(\<forall>t. Reviewer_review t = Accept)
      \<and> ''sys-modified'' \<in> set (split_on CHR '' '' ''modified added sys-modified'')
      \<and> SysModified \<in> set (eventStack ?s)"
    by (simp add: Reviewer_review_def)
  with getCart_reads_store [of ?s, THEN conjunct2, THEN conjunct2, THEN conjunct2,
      THEN conjunct2, THEN conjunct2, rule_format,
      of Reviewer_review "''modified added sys-modified''" "[\<lparr>item_id = 2, qty = 3\<rparr>]"]
  have 3:
    "\<exists>s'. fireCustomEvent Reviewer_review ''modified added sys-modified''
          (Some [\<lparr>item_id = 2, qty = 3\<rparr>]) ?s = Return () s'
        \<and> allItems s' = Some [\<lparr>item_id = 2, qty = 3\<rparr>]
        \<and> getCart None s' = Return (json_of_items [\<lparr>item_id = 2, qty = 3\<rparr>]) s'"
    by blast
  from 1 2 3 show ?thesis by (intro conjI)
qed

section \<open>Unbinding\<close>

text \<open>
  The loop of \<^verbatim>\<open>unbindEvent\<close> in closed form: it leaves \<open>sweep ty\<close> of the stack, which keeps
  the binding that follows a removed one.
\<close>

lemma unbind_loop_sweep:
  "length es \<le> n \<Longrightarrow> unbind_loop ty [i..<n] es = take i es @ sweep ty (drop i es)"
proof (induction "n - i" arbitrary: i es)
  case 0
  then show ?case by simp
next
  case (Suc m)
  then have i: "i < n" and m: "m = n - Suc i" by simp_all
  have keys: "[i..<n] = i # [Suc i..<n]" using i by (rule upt_conv_Cons)
  show ?case
  proof (cases "i < length es")
    case False
    with Suc.hyps(1) [OF m Suc.prems] show ?thesis by (simp add: keys)
  next
    case True
    then have dr: "drop i es = es ! i # drop (Suc i) es" by (simp add: Cons_nth_drop_Suc)
    show ?thesis
    proof (cases "btype (es ! i) = ty")
      case False
      with True Suc.hyps(1) [OF m Suc.prems] show ?thesis
        by (cases "drop (Suc i) es") (simp_all add: keys dr take_Suc_conv_app_nth)
    next
      case match: True
      let ?es' = "splice_array es i 1 []"
      have len: "length ?es' \<le> n" using Suc.prems by (simp add: splice_array_def)
      have li: "length (take i es) = i" using True by simp
      show ?thesis
      proof (cases "drop (Suc i) es")
        case Nil
        with True match Suc.hyps(1) [OF m len] show ?thesis
          by (simp add: keys dr splice_array_def)
      next
        case (Cons b' bs')
        then have "take (Suc i) ?es' = take i es @ [b']" "drop (Suc i) ?es' = bs'"
          using li by (simp_all add: splice_array_def)
        with True match Suc.hyps(1) [OF m len] Cons show ?thesis
          by (simp add: keys dr)
      qed
    qed
  qed
qed

lemma unbindEvent_sweep: "eventStack (unbindEvent ty s) = sweep ty (eventStack s)"
  using unbind_loop_sweep [of "eventStack s" "length (eventStack s)" ty 0]
  by (simp add: unbindEvent_def)

text \<open>Whatever \<^verbatim>\<open>unbindEvent(t)\<close> removes, the bindings of the other types all stay, in order.\<close>

lemma filter_splice_out:
  assumes "i < length es" "\<not> P (es ! i)"
  shows "filter P (splice_array es i 1 []) = filter P es"
proof -
  have "es = take i es @ es ! i # drop (Suc i) es"
    using assms(1) by (simp add: id_take_nth_drop)
  then have "filter P es = filter P (take i es) @ filter P (drop (Suc i) es)"
    using assms(2) by (metis filter.simps(2) filter_append)
  then show ?thesis by (simp add: splice_array_def)
qed

lemma unbind_loop_keeps_others:
  "filter (\<lambda>b. btype b \<noteq> ty) (unbind_loop ty keys es) = filter (\<lambda>b. btype b \<noteq> ty) es"
proof (induction keys arbitrary: es)
  case Nil
  show ?case by simp
next
  case (Cons i keys)
  show ?case
    using Cons.IH [of es] Cons.IH [of "splice_array es i 1 []"]
      filter_splice_out [of i es "\<lambda>b. btype b \<noteq> ty"]
    by simp
qed

lemma unbindEvent_keeps_others:
  "filter (\<lambda>b. btype b \<noteq> ty) (eventStack (unbindEvent ty s))
     = filter (\<lambda>b. btype b \<noteq> ty) (eventStack s)"
  by (simp add: unbindEvent_def unbind_loop_keeps_others)

text \<open>
  C1. \<^verbatim>\<open>unbindEvent(t)\<close> is meant to remove every binding of type \<open>t\<close>, so that a later
  fire of \<open>t\<close> runs none of them. The code splices the array it is enumerating: after a
  removal the next binding moves into the freed slot and is never looked at. With two
  adjacent bindings of \<^verbatim>\<open>'modified'\<close> behind the one of \<^verbatim>\<open>init\<close>, the second survives
  \<^verbatim>\<open>unbindEvent('modified')\<close>, and the next fire of \<^verbatim>\<open>'modified'\<close> runs it.
\<close>

theorem unbindEvent_skips_adjacent_binding:
  "unbindEvent ''modified''
     \<lparr>eventStack = [SysModified, Bound ''modified'' 1, Bound ''modified'' 2],
      allItems = Some [], localStorage = ls, trace = []\<rparr>
   = \<lparr>eventStack = [SysModified, Bound ''modified'' 2],
      allItems = Some [], localStorage = ls, trace = []\<rparr>
   \<and> fireCustomEvent rv ''modified'' None
     (unbindEvent ''modified''
        \<lparr>eventStack = [SysModified, Bound ''modified'' 1, Bound ''modified'' 2],
         allItems = Some [], localStorage = ls, trace = []\<rparr>)
   = Return ()
       \<lparr>eventStack = [SysModified, Bound ''modified'' 2],
        allItems = Some [], localStorage = ls, trace = [Fired ''modified'' None, Ran 2 None]\<rparr>"
  by (simp add: unbindEvent_def splice_array_def upt_conv_Cons fireCustomEvent.simps fire_loop.simps)

end
